theory Spec2Isabelle
  imports Main "HOL-Library.Word"
begin

unbundle bit_operations_syntax

section \<open>The explore index of menu/menu\_explore.c\<close>

text \<open>
  A shallow embedding of the faceted index of \<^verbatim>\<open>menu/menu_explore.c\<close>: the FNV-1a
  hashes, the open-addressing map \<^verbatim>\<open>ex_hashmap32\<close>, the field normalizer
  \<^verbatim>\<open>explore_add_unique_string\<close>, the last step of \<^verbatim>\<open>explore_build_list\<close> and the
  entry filter of \<^verbatim>\<open>menu_displaylist_explore\<close>.

  C strings are \<open>string\<close>s (lists of 8-bit characters) holding the bytes before the
  terminating NUL. \<^verbatim>\<open>uint32_t\<close> is \<open>32 word\<close>, \<^verbatim>\<open>size_t\<close> is \<open>64 word\<close> or a
  natural number where it only counts.
\<close>

type_synonym uint32 = "32 word"
type_synonym size_t = "64 word"

subsection \<open>Functions of the C library\<close>

text \<open>The value of a byte read as \<^verbatim>\<open>unsigned char\<close>.\<close>

definition uchar :: "char \<Rightarrow> nat" where
  "uchar c = of_char c"

text \<open>\<^verbatim>\<open>tolower\<close> in the C locale: only the letters A to Z change.\<close>

definition tolower :: "char \<Rightarrow> char" where
  "tolower c = (if 65 \<le> uchar c \<and> uchar c \<le> 90 then char_of (uchar c + 32) else c)"

text \<open>
  \<^verbatim>\<open>strcasecmp\<close>: the difference of the first pair of bytes that differ after
  \<^verbatim>\<open>tolower\<close>, the terminator being byte 0.
\<close>

fun strcasecmp :: "string \<Rightarrow> string \<Rightarrow> int" where
  "strcasecmp [] [] = 0"
| "strcasecmp [] (b # bs) = - int (uchar (tolower b))"
| "strcasecmp (a # as) [] = int (uchar (tolower a))"
| "strcasecmp (a # as) (b # bs) =
     (if tolower a = tolower b then strcasecmp as bs
      else int (uchar (tolower a)) - int (uchar (tolower b)))"

text \<open>
  \<^verbatim>\<open>qsort\<close> with a comparison function. The C library leaves the algorithm open; the
  model inserts the elements one by one, each before the first element that does not
  compare smaller.
\<close>

fun qsort_insert :: "('a \<Rightarrow> 'a \<Rightarrow> int) \<Rightarrow> 'a \<Rightarrow> 'a list \<Rightarrow> 'a list" where
  "qsort_insert cmp x [] = [x]"
| "qsort_insert cmp x (y # ys) =
     (if cmp x y \<le> 0 then x # y # ys else y # qsort_insert cmp x ys)"

definition qsort :: "('a \<Rightarrow> 'a \<Rightarrow> int) \<Rightarrow> 'a list \<Rightarrow> 'a list" where
  "qsort cmp xs = foldr (qsort_insert cmp) xs []"

subsection \<open>Hash functions\<close>

definition fnv_step :: "uint32 \<Rightarrow> uint32 \<Rightarrow> uint32" where
  "fnv_step hash c = (hash * 0x01000193) XOR c"

definition nonzero_hash :: "uint32 \<Rightarrow> uint32" where
  "nonzero_hash hash = (if hash \<noteq> 0 then hash else 1)"

definition ex_hash32 :: "string \<Rightarrow> uint32" where
  "ex_hash32 str = nonzero_hash (foldl (\<lambda>hash c. fnv_step hash (of_char c)) 0x811c9dc5 str)"

text \<open>
  \<^verbatim>\<open>ex_hash32_nocase_filtered(str, len, f_first, f_last)\<close> on the \<open>len\<close> bytes at
  \<open>str\<close>: bytes outside the range are skipped, the letters A to Z are hashed as
  \<^verbatim>\<open>c | 0x20\<close>.
\<close>

definition nocase_filtered_step :: "nat \<Rightarrow> nat \<Rightarrow> uint32 \<Rightarrow> char \<Rightarrow> uint32" where
  "nocase_filtered_step f_first f_last hash c =
     (if f_first \<le> uchar c \<and> uchar c \<le> f_last
      then fnv_step hash (if 65 \<le> uchar c \<and> uchar c \<le> 90 then of_char c OR 0x20 else of_char c)
      else hash)"

definition ex_hash32_nocase_filtered :: "string \<Rightarrow> nat \<Rightarrow> nat \<Rightarrow> uint32" where
  "ex_hash32_nocase_filtered bytes f_first f_last =
     nonzero_hash (foldl (nocase_filtered_step f_first f_last) 0x811c9dc5 bytes)"

subsection \<open>The open-addressing map\<close>

text \<open>
  \<^verbatim>\<open>ex_hashmap32\<close>: the two arrays are lists of \<open>cap\<close> slots. The values are
  \<^verbatim>\<open>uintptr_t\<close>, integers or pointers; the model leaves their type open, with \<open>0\<close> for
  the integer 0 and the null pointer. A call that does not return a value is \<open>None\<close>:
  a probe loop that never finds its slot, or an access outside the arrays.
\<close>

record 'v ex_hashmap32 =
  len :: uint32
  cap :: uint32
  keys :: "uint32 list"
  vals :: "'v list"

text \<open>The zero-initialised map \<^verbatim>\<open>{0}\<close>: no arrays yet.\<close>

definition ex_hashmap32_zero :: "'v ex_hashmap32" where
  "ex_hashmap32_zero = \<lparr>len = 0, cap = 0, keys = [], vals = []\<rparr>"

text \<open>
  The inner loop of \<^verbatim>\<open>ex_hashmap32__grow\<close>:
  \<^verbatim>\<open>for (j = key;; j++) if (!map->keys[j &= map->cap - 1]) { ...; break; }\<close>
\<close>

partial_function (option) grow_probe ::
  "'v ex_hashmap32 \<Rightarrow> uint32 \<Rightarrow> 'v \<Rightarrow> size_t \<Rightarrow> 'v ex_hashmap32 option" where
  "grow_probe m key val j =
     (let j' = j AND ucast (cap m - 1) in
      if unat j' < length (keys m) then
        if keys m ! unat j' = 0 then
          if unat j' < length (vals m)
          then Some (m\<lparr>keys := (keys m)[unat j' := key], vals := (vals m)[unat j' := val]\<rparr>)
          else None
        else grow_probe m key val (j' + 1)
      else None)"

text \<open>The outer loop \<^verbatim>\<open>for (i = 0; i < old_cap; i++)\<close> over the old arrays.\<close>

function grow_loop ::
  "uint32 list \<Rightarrow> 'v list \<Rightarrow> nat \<Rightarrow> nat \<Rightarrow> 'v ex_hashmap32 \<Rightarrow> 'v ex_hashmap32 option" where
  "grow_loop old_keys old_vals old_cap i m =
     (if i < old_cap then
        if i < length old_keys then
          if old_keys ! i = 0 then grow_loop old_keys old_vals old_cap (i + 1) m
          else if i < length old_vals then
            (case grow_probe m (old_keys ! i) (old_vals ! i) (ucast (old_keys ! i)) of
               None \<Rightarrow> None
             | Some m' \<Rightarrow> grow_loop old_keys old_vals old_cap (i + 1) m')
          else None
        else None
      else Some m)"
  by pat_completeness auto
termination
  by (relation "measure (\<lambda>(old_keys, old_vals, old_cap, i, m). old_cap - i)") auto

declare grow_loop.simps [simp del]

text \<open>
  \<^verbatim>\<open>ex_hashmap32__grow\<close>: \<^verbatim>\<open>calloc\<close> zeroes the new keys; the new values come from
  \<^verbatim>\<open>malloc\<close> and are written before they are read, the model fills them with 0.
\<close>

definition ex_hashmap32__grow :: "'v::zero ex_hashmap32 \<Rightarrow> uint32 \<Rightarrow> 'v ex_hashmap32 option" where
  "ex_hashmap32__grow m new_cap =
     (let old_cap = cap m; old_keys = keys m; old_vals = vals m;
          c = (if new_cap < 16 then 16 else new_cap)
      in grow_loop old_keys old_vals (unat old_cap) 0
           (m\<lparr>cap := c, keys := replicate (unat c) 0, vals := replicate (unat c) 0\<rparr>))"

text \<open>The loop of \<^verbatim>\<open>ex_hashmap32_getnum\<close>.\<close>

partial_function (option) getnum_probe ::
  "'v::zero ex_hashmap32 \<Rightarrow> uint32 \<Rightarrow> uint32 \<Rightarrow> 'v option" where
  "getnum_probe m key i =
     (let i' = i AND (cap m - 1) in
      if unat i' < length (keys m) then
        if keys m ! unat i' = key then
          if unat i' < length (vals m) then Some (vals m ! unat i') else None
        else if keys m ! unat i' = 0 then Some 0
        else getnum_probe m key (i' + 1)
      else None)"

definition ex_hashmap32_getnum :: "'v::zero ex_hashmap32 \<Rightarrow> uint32 \<Rightarrow> 'v option" where
  "ex_hashmap32_getnum m key =
     (if len m = 0 \<or> key = 0 then Some 0 else getnum_probe m key key)"

text \<open>The loop of \<^verbatim>\<open>ex_hashmap32_setnum\<close>.\<close>

partial_function (option) setnum_probe ::
  "'v ex_hashmap32 \<Rightarrow> uint32 \<Rightarrow> 'v \<Rightarrow> uint32 \<Rightarrow> 'v ex_hashmap32 option" where
  "setnum_probe m key val i =
     (let i' = i AND (cap m - 1) in
      if unat i' < length (keys m) then
        if keys m ! unat i' = 0 then
          if unat i' < length (vals m)
          then Some (m\<lparr>len := len m + 1,
                       keys := (keys m)[unat i' := key], vals := (vals m)[unat i' := val]\<rparr>)
          else None
        else if keys m ! unat i' = key then
          if unat i' < length (vals m)
          then Some (m\<lparr>vals := (vals m)[unat i' := val]\<rparr>)
          else None
        else setnum_probe m key val (i' + 1)
      else None)"

definition ex_hashmap32_setnum :: "'v::zero ex_hashmap32 \<Rightarrow> uint32 \<Rightarrow> 'v \<Rightarrow> 'v ex_hashmap32 option" where
  "ex_hashmap32_setnum m key val =
     (if key = 0 then Some m
      else case (if 2 * len m \<ge> cap m then ex_hashmap32__grow m (2 * cap m) else Some m) of
             None \<Rightarrow> None
           | Some m' \<Rightarrow> setnum_probe m' key val key)"

text \<open>A sequence of \<^verbatim>\<open>ex_hashmap32_setnum\<close> calls, first to last.\<close>

fun setnum_all :: "'v::zero ex_hashmap32 \<Rightarrow> (uint32 \<times> 'v) list \<Rightarrow> 'v ex_hashmap32 option" where
  "setnum_all m [] = Some m"
| "setnum_all m ((key, val) # ops) =
     (case ex_hashmap32_setnum m key val of None \<Rightarrow> None | Some m' \<Rightarrow> setnum_all m' ops)"


declare grow_probe.simps [code] getnum_probe.simps [code] setnum_probe.simps [code]

subsection \<open>Data of the index\<close>

text \<open>
  A pointer to an \<^verbatim>\<open>explore_string_t\<close> is a natural number: 0 is the null pointer and
  \<open>n + 1\<close> is the address of the string that the arena handed out as its \<open>n\<close>-th
  \<^verbatim>\<open>explore_string_t\<close>. Two pointers are equal exactly when they are the same number,
  as two addresses are. Allocation is taken to succeed.
\<close>

type_synonym string_ptr = nat

record explore_string_t =
  idx :: uint32
  str :: string

record playlist_entry =
  label :: "string option"
  crc32 :: "string option"
  db_name :: "string option"

record explore_entry_t =
  playlist_entry :: playlist_entry
  e_by :: "nat \<Rightarrow> string_ptr"
  e_split :: "string_ptr list option"
  original_title :: "string option"

record explore_state_t =
  arena :: "explore_string_t list"
  by_cat :: "nat \<Rightarrow> string_ptr list"
  has_unknown :: "nat \<Rightarrow> bool"
  entries :: "explore_entry_t list"
  find_string :: string

record explore_by_info_t =
  name :: string
  rdbkey :: string
  use_split :: bool
  is_company :: bool
  is_numeric :: bool

definition EXPLORE_CAT_COUNT :: nat where
  "EXPLORE_CAT_COUNT = 10"

definition EXPLORE_BY_SYSTEM :: nat where
  "EXPLORE_BY_SYSTEM = 9"

definition explore_by_info :: "explore_by_info_t list" where
  "explore_by_info =
    [\<lparr>name = ''Developer'', rdbkey = ''developer'', use_split = True, is_company = True, is_numeric = False\<rparr>,
     \<lparr>name = ''Publisher'', rdbkey = ''publisher'', use_split = True, is_company = True, is_numeric = False\<rparr>,
     \<lparr>name = ''Release Year'', rdbkey = ''releaseyear'', use_split = False, is_company = False, is_numeric = True\<rparr>,
     \<lparr>name = ''Player Count'', rdbkey = ''users'', use_split = False, is_company = False, is_numeric = True\<rparr>,
     \<lparr>name = ''Genre'', rdbkey = ''genre'', use_split = True, is_company = False, is_numeric = False\<rparr>,
     \<lparr>name = ''Origin'', rdbkey = ''origin'', use_split = False, is_company = False, is_numeric = False\<rparr>,
     \<lparr>name = ''Region'', rdbkey = ''region'', use_split = False, is_company = False, is_numeric = False\<rparr>,
     \<lparr>name = ''Franchise'', rdbkey = ''franchise'', use_split = False, is_company = False, is_numeric = False\<rparr>,
     \<lparr>name = ''Tags'', rdbkey = ''tags'', use_split = True, is_company = False, is_numeric = False\<rparr>,
     \<lparr>name = ''System'', rdbkey = ''system'', use_split = False, is_company = False, is_numeric = False\<rparr>]"

text \<open>What stops a call short of its result.\<close>

datatype fault =
  OutOfBounds \<comment> \<open>a read outside the bytes of the field and its terminator\<close>
| NullDeref \<comment> \<open>a push through the null \<^verbatim>\<open>split_buf\<close>, or a pointer that is no string of the arena\<close>
| MapNoReturn \<comment> \<open>a call of the map that does not return\<close>

text \<open>The string behind a pointer.\<close>

definition valid_ptr :: "explore_state_t \<Rightarrow> string_ptr \<Rightarrow> bool" where
  "valid_ptr st p = (0 < p \<and> p \<le> length (arena st))"

definition deref :: "explore_state_t \<Rightarrow> string_ptr \<Rightarrow> explore_string_t" where
  "deref st p = arena st ! (p - 1)"

subsection \<open>The comparison functions\<close>

text \<open>\<^verbatim>\<open>str[0]\<close>: the first byte, the terminator 0 for the empty string.\<close>

definition first_byte :: "string \<Rightarrow> nat" where
  "first_byte s = (case s of [] \<Rightarrow> 0 | c # _ \<Rightarrow> uchar c)"

text \<open>
  \<^verbatim>\<open>explore_qsort_func_strings\<close>, \<^verbatim>\<open>explore_qsort_func_entries\<close> and
  \<^verbatim>\<open>explore_qsort_func_menulist\<close> compare two strings in the same way; they differ in
  where the strings are taken from.
\<close>

definition explore_qsort_func :: "string \<Rightarrow> string \<Rightarrow> int" where
  "explore_qsort_func a b =
     (if first_byte a \<noteq> first_byte b then int (first_byte a) - int (first_byte b)
      else strcasecmp a b)"

definition explore_qsort_func_strings :: "explore_state_t \<Rightarrow> string_ptr \<Rightarrow> string_ptr \<Rightarrow> int" where
  "explore_qsort_func_strings st a b = explore_qsort_func (str (deref st a)) (str (deref st b))"

definition label_str :: "explore_entry_t \<Rightarrow> string" where
  "label_str e = (case label (playlist_entry e) of None \<Rightarrow> [] | Some l \<Rightarrow> l)"

definition explore_qsort_func_entries :: "explore_entry_t \<Rightarrow> explore_entry_t \<Rightarrow> int" where
  "explore_qsort_func_entries a b = explore_qsort_func (label_str a) (label_str b)"

record item_file =
  path :: string
  item_type :: uint32

definition explore_qsort_func_menulist :: "item_file \<Rightarrow> item_file \<Rightarrow> int" where
  "explore_qsort_func_menulist a b = explore_qsort_func (path a) (path b)"


subsection \<open>Reading the field\<close>

text \<open>
  The field \<^verbatim>\<open>str\<close> occupies the bytes \<open>0 .. length s\<close>, the last one being the
  terminator. Positions are offsets from its first byte; they are integers, as the
  pointers of the source move in both directions. A read at any other offset is outside
  the field.
\<close>

definition NUL :: char where
  "NUL = CHR 0x00"

definition rd :: "string \<Rightarrow> int \<Rightarrow> fault + char" where
  "rd s i =
     (if 0 \<le> i \<and> i < int (length s) then Inr (s ! nat i)
      else if i = int (length s) then Inr NUL
      else Inl OutOfBounds)"

text \<open>The \<open>n\<close> bytes at offset \<open>i\<close>, for \<^verbatim>\<open>memcpy\<close> and the hash.\<close>

definition rd_bytes :: "string \<Rightarrow> int \<Rightarrow> int \<Rightarrow> fault + string" where
  "rd_bytes s i n =
     (if 0 \<le> i \<and> 0 \<le> n \<and> i + n \<le> int (length s) + 1
      then Inr (take (nat n) (drop (nat i) (s @ [NUL])))
      else Inl OutOfBounds)"

text \<open>\<^verbatim>\<open>while (*p == ' ') p++;\<close>\<close>

function skip_spaces :: "string \<Rightarrow> int \<Rightarrow> fault + int" where
  "skip_spaces s i =
     (case rd s i of
        Inl f \<Rightarrow> Inl f
      | Inr c \<Rightarrow> if c = CHR '' '' then skip_spaces s (i + 1) else Inr i)"
  by pat_completeness auto
termination
  by (relation "measure (\<lambda>(s, i). nat (int (length s) - i))")
     (auto simp: rd_def NUL_def split: if_splits)

declare skip_spaces.simps [simp del]

text \<open>\<^verbatim>\<open>while (p[-1] == ' ') p--;\<close>\<close>

function skip_spaces_back :: "string \<Rightarrow> int \<Rightarrow> fault + int" where
  "skip_spaces_back s p =
     (case rd s (p - 1) of
        Inl f \<Rightarrow> Inl f
      | Inr c \<Rightarrow> if c = CHR '' '' then skip_spaces_back s (p - 1) else Inr p)"
  by pat_completeness auto
termination
  by (relation "measure (\<lambda>(s, p). nat p)")
     (auto simp: rd_def NUL_def split: if_splits)

declare skip_spaces_back.simps [simp del]

text \<open>
  \<^verbatim>\<open>tolower(p[0]) == a && tolower(p[1]) == b && tolower(p[2]) == c\<close>: a byte is read only
  when the bytes before it matched.
\<close>

definition suffix_match :: "string \<Rightarrow> int \<Rightarrow> char \<Rightarrow> char \<Rightarrow> char \<Rightarrow> fault + bool" where
  "suffix_match s p a b c =
     (case rd s p of
        Inl f \<Rightarrow> Inl f
      | Inr x0 \<Rightarrow>
          if tolower x0 \<noteq> a then Inr False
          else (case rd s (p + 1) of
                  Inl f \<Rightarrow> Inl f
                | Inr x1 \<Rightarrow>
                    if tolower x1 \<noteq> b then Inr False
                    else (case rd s (p + 2) of
                            Inl f \<Rightarrow> Inl f
                          | Inr x2 \<Rightarrow> Inr (tolower x2 = c))))"

text \<open>\<^verbatim>\<open>return (p[3] == '.' ? 4 : 3);\<close>\<close>

definition suffix_length :: "string \<Rightarrow> int \<Rightarrow> fault + int" where
  "suffix_length s p =
     (case rd s (p + 3) of
        Inl f \<Rightarrow> Inl f
      | Inr x \<Rightarrow> Inr (if x = CHR ''.'' then 4 else 3))"

definition suffix_tokens :: "string \<Rightarrow> int \<Rightarrow> fault + int" where
  "suffix_tokens s p =
     (case suffix_match s p (CHR ''i'') (CHR ''n'') (CHR ''c'') of
        Inl f \<Rightarrow> Inl f
      | Inr True \<Rightarrow> suffix_length s p
      | Inr False \<Rightarrow>
          (case suffix_match s p (CHR ''l'') (CHR ''t'') (CHR ''d'') of
             Inl f \<Rightarrow> Inl f
           | Inr True \<Rightarrow> suffix_length s p
           | Inr False \<Rightarrow>
               (case suffix_match s p (CHR ''t'') (CHR ''h'') (CHR ''e'') of
                  Inl f \<Rightarrow> Inl f
                | Inr True \<Rightarrow> suffix_length s p
                | Inr False \<Rightarrow> Inr 0)))"

definition explore_check_company_suffix :: "string \<Rightarrow> int \<Rightarrow> bool \<Rightarrow> fault + int" where
  "explore_check_company_suffix s p search_reverse =
     (if search_reverse then
        (case rd s (p - 1) of
           Inl f \<Rightarrow> Inl f
         | Inr c \<Rightarrow>
             (let p' = p - (if c = CHR ''.'' then 4 else 3) in
              case rd s (p' - 1) of
                Inl f \<Rightarrow> Inl f
              | Inr c' \<Rightarrow> if c' \<noteq> CHR '' '' then Inr 0 else suffix_tokens s p'))
      else suffix_tokens s p)"

subsection \<open>The normalizer\<close>

text \<open>
  What \<^verbatim>\<open>explore_add_unique_string\<close> reads and writes: the maps \<^verbatim>\<open>cat_maps\<close>, the global
  \<^verbatim>\<open>explore_state\<close>, the entry \<^verbatim>\<open>e\<close> under construction and the buffer behind
  \<^verbatim>\<open>split_buf\<close>.
\<close>

record build_t =
  maps :: "nat \<Rightarrow> string_ptr ex_hashmap32"
  state :: explore_state_t
  e :: explore_entry_t
  split_buf :: "string_ptr list"

text \<open>
  Lines 429 to 444: hash the \<open>bytes\<close> of the segment, look the hash up in the map
  of the category and, on a miss, copy the bytes into a new string, push it onto the
  array of the category and enter it into the map. The result is \<^verbatim>\<open>entry\<close>.
\<close>

definition intern_segment :: "nat \<Rightarrow> string \<Rightarrow> build_t \<Rightarrow> fault + string_ptr \<times> build_t" where
  "intern_segment cat bytes b =
     (let hash = ex_hash32_nocase_filtered bytes 48 255 in
      case ex_hashmap32_getnum (maps b cat) hash of
        None \<Rightarrow> Inl MapNoReturn
      | Some entry \<Rightarrow>
          if entry = 0 then
            (let entry' = length (arena (state b)) + 1;
                 st' = (state b)\<lparr>arena := arena (state b) @ [\<lparr>idx = 0, str = bytes\<rparr>],
                                 by_cat := (by_cat (state b))(cat := by_cat (state b) cat @ [entry'])\<rparr>
             in case ex_hashmap32_setnum (maps b cat) hash entry' of
                  None \<Rightarrow> Inl MapNoReturn
                | Some m' \<Rightarrow> Inr (entry', b\<lparr>maps := (maps b)(cat := m'), state := st'\<rparr>))
          else Inr (entry, b))"

text \<open>
  Lines 446 to 449: the first value of the field is the primary value of the entry, the
  others are pushed onto \<^verbatim>\<open>*split_buf\<close>, which faults when \<^verbatim>\<open>split_buf\<close> is null.
\<close>

definition attach_value :: "nat \<Rightarrow> bool \<Rightarrow> string_ptr \<Rightarrow> build_t \<Rightarrow> fault + build_t" where
  "attach_value cat has_buf entry b =
     (if e_by (e b) cat = 0 then Inr (b\<lparr>e := (e b)\<lparr>e_by := (e_by (e b))(cat := entry)\<rparr>\<rparr>)
      else if has_buf then Inr (b\<lparr>split_buf := split_buf b @ [entry]\<rparr>)
      else Inl NullDeref)"

text \<open>
  Lines 453 to 465, for a company category after a comma: skip spaces, a suffix token
  and spaces again. \<open>None\<close> is the \<^verbatim>\<open>return\<close> at the end of the field; otherwise the
  result is the new \<^verbatim>\<open>p_next\<close>.
\<close>

definition after_comma :: "string \<Rightarrow> int \<Rightarrow> fault + int option" where
  "after_comma s p_next =
     (case skip_spaces s (p_next + 1) of
        Inl f \<Rightarrow> Inl f
      | Inr p \<Rightarrow>
          (case explore_check_company_suffix s p False of
             Inl f \<Rightarrow> Inl f
           | Inr k \<Rightarrow>
               (case skip_spaces s (p + k) of
                  Inl f \<Rightarrow> Inl f
                | Inr p' \<Rightarrow>
                    (case rd s p' of
                       Inl f \<Rightarrow> Inl f
                     | Inr c \<Rightarrow>
                         if c = NUL then Inr None
                         else if c = CHR ''/'' \<or> c = CHR '','' \<or> c = CHR ''|'' then Inr (Some p')
                         else Inr (Some p_next)))))"

text \<open>
  One round of the loop \<^verbatim>\<open>for (p = str + 1;; p++)\<close>, from the pair \<open>(str, p)\<close>:
  \<open>Next\<close> is the pair at the head of the next round (after \<^verbatim>\<open>p++\<close>), \<open>Return\<close> a
  \<^verbatim>\<open>return\<close>.
\<close>

datatype step = Fault fault | Next int int build_t | Return build_t

definition add_unique_step ::
  "nat \<Rightarrow> bool \<Rightarrow> bool \<Rightarrow> string \<Rightarrow> int \<Rightarrow> int \<Rightarrow> build_t \<Rightarrow> step" where
  "add_unique_step cat has_buf company s str0 p0 b =
     (case rd s p0 of
        Inl f \<Rightarrow> Fault f
      | Inr c \<Rightarrow>
          if c \<noteq> CHR ''/'' \<and> c \<noteq> CHR '','' \<and> c \<noteq> CHR ''|'' \<and> c \<noteq> NUL then Next str0 (p0 + 1) b
          else if \<not> has_buf \<and> c \<noteq> NUL then Next str0 (p0 + 1) b
          else
            (case skip_spaces s str0 of
               Inl f \<Rightarrow> Fault f
             | Inr str1 \<Rightarrow>
            (case skip_spaces_back s p0 of
               Inl f \<Rightarrow> Fault f
             | Inr p1 \<Rightarrow>
                 if p1 = str1 then
                   (case rd s p1 of
                      Inl f \<Rightarrow> Fault f
                    | Inr c1 \<Rightarrow> if c1 = NUL then Return b else Next str1 (p1 + 1) b)
                 else
                   (case (if company \<and> p1 - str1 > 5
                          then (case explore_check_company_suffix s p1 True of
                                  Inl f \<Rightarrow> Inl f
                                | Inr k \<Rightarrow> skip_spaces_back s (p1 - k))
                          else Inr p1) of
                      Inl f \<Rightarrow> Fault f
                    | Inr p2 \<Rightarrow>
                   (case rd_bytes s str1 ((p2 - str1) mod 2 ^ 64) of
                      Inl f \<Rightarrow> Fault f
                    | Inr bytes \<Rightarrow>
                   (case intern_segment cat bytes b of
                      Inl f \<Rightarrow> Fault f
                    | Inr (entry, b1) \<Rightarrow>
                   (case attach_value cat has_buf entry b1 of
                      Inl f \<Rightarrow> Fault f
                    | Inr b2 \<Rightarrow>
                   (case rd s p0 of
                      Inl f \<Rightarrow> Fault f
                    | Inr c_next \<Rightarrow>
                        if c_next = NUL then Return b2
                        else
                          (case (if company \<and> c_next = CHR '','' then after_comma s p0
                                 else Inr (Some p0)) of
                             Inl f \<Rightarrow> Fault f
                           | Inr None \<Rightarrow> Return b2
                           | Inr (Some p_next) \<Rightarrow> Next (p_next + 1) (p_next + 1) b2)))))))))"

text \<open>The loop itself; \<open>None\<close> is a loop that never returns.\<close>

partial_function (option) add_unique_loop ::
  "nat \<Rightarrow> bool \<Rightarrow> bool \<Rightarrow> string \<Rightarrow> int \<Rightarrow> int \<Rightarrow> build_t \<Rightarrow> (fault + build_t) option" where
  "add_unique_loop cat has_buf company s str0 p0 b =
     (case add_unique_step cat has_buf company s str0 p0 b of
        Fault f \<Rightarrow> Some (Inl f)
      | Return b' \<Rightarrow> Some (Inr b')
      | Next str1 p1 b' \<Rightarrow> add_unique_loop cat has_buf company s str1 p1 b')"

declare add_unique_loop.simps [code]

text \<open>
  \<^verbatim>\<open>explore_add_unique_string(maps, e, cat, str, split_buf)\<close>: \<open>str\<close> is \<open>None\<close> for the
  null pointer, \<open>with_split_buf\<close> says whether \<^verbatim>\<open>split_buf\<close> is given.
\<close>

definition explore_add_unique_string ::
  "build_t \<Rightarrow> nat \<Rightarrow> string option \<Rightarrow> bool \<Rightarrow> (fault + build_t) option" where
  "explore_add_unique_string b cat str0 with_split_buf =
     (if str0 = None \<or> rd (the str0) 0 = Inr NUL
      then Some (Inr (b\<lparr>state := (state b)\<lparr>has_unknown := (has_unknown (state b))(cat := True)\<rparr>\<rparr>))
      else add_unique_loop cat
             (with_split_buf \<and> use_split (explore_by_info ! cat))
             (is_company (explore_by_info ! cat))
             (the str0) 0 1 b)"


subsection \<open>Building the index\<close>

text \<open>
  \<^verbatim>\<open>explore_build_list\<close> reads playlists and databases through functions that are not
  part of this file. The model takes what they deliver: the playlist entries, and the
  database records already decoded into one raw field per category.
\<close>

text \<open>
  \<^verbatim>\<open>strtoul(s, NULL, 16)\<close> cast to \<^verbatim>\<open>uint32_t\<close>: leading white space, a sign and
  \<^verbatim>\<open>0x\<close> are skipped, the hexadecimal digits that follow are the value. A value above
  \<^verbatim>\<open>ULONG_MAX\<close> (64 bits) gives \<^verbatim>\<open>ULONG_MAX\<close>, whatever the sign; any other value is
  negated after a minus sign, in 64 bits, and then cast.
\<close>

definition hex_digit :: "char \<Rightarrow> nat option" where
  "hex_digit c =
     (let n = uchar c in
      if 48 \<le> n \<and> n \<le> 57 then Some (n - 48)
      else if 65 \<le> n \<and> n \<le> 70 then Some (n - 55)
      else if 97 \<le> n \<and> n \<le> 102 then Some (n - 87)
      else None)"

fun hex_value :: "int \<Rightarrow> string \<Rightarrow> int" where
  "hex_value acc [] = acc"
| "hex_value acc (c # cs) =
     (case hex_digit c of None \<Rightarrow> acc | Some d \<Rightarrow> hex_value (16 * acc + int d) cs)"

definition isspace :: "char \<Rightarrow> bool" where
  "isspace c = (uchar c = 32 \<or> (9 \<le> uchar c \<and> uchar c \<le> 13))"

definition strip_0x :: "string \<Rightarrow> string" where
  "strip_0x s =
     (case s of
        z # x # d # rest \<Rightarrow>
          if z = CHR ''0'' \<and> (x = CHR ''x'' \<or> x = CHR ''X'') \<and> hex_digit d \<noteq> None
          then d # rest else s
      | _ \<Rightarrow> s)"

definition strtoul16 :: "string \<Rightarrow> uint32" where
  "strtoul16 s =
     (let s1 = dropWhile isspace s;
          neg = (s1 \<noteq> [] \<and> hd s1 = CHR ''-'');
          s2 = (if s1 \<noteq> [] \<and> (hd s1 = CHR ''-'' \<or> hd s1 = CHR ''+'') then tl s1 else s1);
          v = hex_value 0 (strip_0x s2)
      in if 2 ^ 64 - 1 < v then of_int (2 ^ 64 - 1)
         else if neg then - of_int v else of_int v)"

text \<open>
  Lines 557 to 602, for a playlist entry whose database is open: \<open>m\<close> is the map
  \<^verbatim>\<open>rdb->playlist_entries\<close>, \<open>entry\<close> the address of the playlist entry (not null).
\<close>

definition explore_index_playlist_entry ::
  "nat ex_hashmap32 \<times> nat \<Rightarrow> playlist_entry \<Rightarrow> nat \<Rightarrow> (nat ex_hashmap32 \<times> nat) option" where
  "explore_index_playlist_entry mu pe entry =
     (case mu of (m, used_entries) \<Rightarrow>
        if crc32 pe = None \<or> crc32 pe = Some [] \<or> db_name pe = None \<or> db_name pe = Some []
           \<or> label pe = None \<or> label pe = Some []
        then Some (m, used_entries)
        else
          (let entry_crc32 = strtoul16 (the (crc32 pe)) in
           case ex_hashmap32_setnum m entry_crc32 entry of
             None \<Rightarrow> None
           | Some m' \<Rightarrow> Some (m', used_entries + 1)))"

text \<open>Line 695: the playlist entry of a database record with checksum \<open>crc\<close>; 0 is no entry.\<close>

definition explore_match_record :: "nat ex_hashmap32 \<Rightarrow> uint32 \<Rightarrow> nat option" where
  "explore_match_record m crc = ex_hashmap32_getnum m crc"

text \<open>
  A matched database record: its playlist entry, the raw field of each category (lines
  645 to 690), the system name of the core of the entry (line 715) and the field
  \<^verbatim>\<open>original_title\<close>.
\<close>

record matched_record =
  r_entry :: playlist_entry
  r_fields :: "nat \<Rightarrow> string option"
  r_systemname :: "string option"
  r_original_title :: "string option"

text \<open>What a build keeps between records: the maps, the state and the split buffer.\<close>

definition build_init :: build_t where
  "build_init =
     \<lparr>maps = (\<lambda>cat. ex_hashmap32_zero),
      state = \<lparr>arena = [], by_cat = (\<lambda>cat. []), has_unknown = (\<lambda>cat. False),
               entries = [], find_string = []\<rparr>,
      e = \<lparr>playlist_entry = \<lparr>label = None, crc32 = None, db_name = None\<rparr>,
           e_by = (\<lambda>cat. 0), e_split = None, original_title = None\<rparr>,
      split_buf = []\<rparr>"

text \<open>Lines 706 to 708: the fields of the categories in turn.\<close>

fun add_fields :: "build_t \<Rightarrow> (nat \<Rightarrow> string option) \<Rightarrow> nat list \<Rightarrow> (fault + build_t) option" where
  "add_fields b raw [] = Some (Inr b)"
| "add_fields b raw (cat # cats) =
     (case explore_add_unique_string b cat (raw cat) True of
        None \<Rightarrow> None
      | Some (Inl f) \<Rightarrow> Some (Inl f)
      | Some (Inr b') \<Rightarrow> add_fields b' raw cats)"

text \<open>Lines 700 to 737: one matched record becomes one entry.\<close>

definition explore_add_record :: "build_t \<Rightarrow> matched_record \<Rightarrow> (fault + build_t) option" where
  "explore_add_record b r =
     (let e0 = \<lparr>playlist_entry = r_entry r, e_by = (\<lambda>cat. 0), e_split = None,
                original_title = None\<rparr>
      in case add_fields (b\<lparr>e := e0\<rparr>) (r_fields r) [0..<EXPLORE_CAT_COUNT] of
           None \<Rightarrow> None
         | Some (Inl f) \<Rightarrow> Some (Inl f)
         | Some (Inr b1) \<Rightarrow>
             (case explore_add_unique_string b1 EXPLORE_BY_SYSTEM (r_systemname r) False of
                None \<Rightarrow> None
              | Some (Inl f) \<Rightarrow> Some (Inl f)
              | Some (Inr b2) \<Rightarrow>
                  (let e1 = (if r_original_title r \<noteq> None \<and> r_original_title r \<noteq> Some []
                             then (e b2)\<lparr>original_title := r_original_title r\<rparr> else e b2);
                       e2 = (if split_buf b2 \<noteq> []
                             then e1\<lparr>e_split := Some (split_buf b2 @ [0])\<rparr> else e1)
                   in Some (Inr (b2\<lparr>state := (state b2)\<lparr>entries := entries (state b2) @ [e2]\<rparr>,
                                     e := e2, split_buf := []\<rparr>)))))"

fun add_records :: "build_t \<Rightarrow> matched_record list \<Rightarrow> (fault + build_t) option" where
  "add_records b [] = Some (Inr b)"
| "add_records b (r # rs) =
     (case explore_add_record b r of
        None \<Rightarrow> None
      | Some (Inl f) \<Rightarrow> Some (Inl f)
      | Some (Inr b') \<Rightarrow> add_records b' rs)"

text \<open>
  Lines 754 to 760 for one category: sort the array, then
  \<^verbatim>\<open>for (idx = 0; idx != len; idx++) by[i][idx]->idx = idx;\<close> with \<open>idx\<close> of 32 bits,
  a loop that does not end when the array has \<open>2 ^ 32\<close> elements or more.
\<close>

fun assign_idx :: "explore_string_t list \<Rightarrow> string_ptr list \<Rightarrow> nat \<Rightarrow> explore_string_t list" where
  "assign_idx ar [] k = ar"
| "assign_idx ar (p # ps) k = assign_idx (ar[p - 1 := (ar ! (p - 1))\<lparr>idx := of_nat k\<rparr>]) ps (k + 1)"

definition sort_category :: "explore_state_t \<Rightarrow> nat \<Rightarrow> (fault + explore_state_t) option" where
  "sort_category st cat =
     (if \<not> list_all (valid_ptr st) (by_cat st cat) then Some (Inl NullDeref)
      else if (2::int) ^ 32 \<le> int (length (by_cat st cat)) then None
      else
        (let sorted = qsort (explore_qsort_func_strings st) (by_cat st cat)
         in Some (Inr (st\<lparr>arena := assign_idx (arena st) sorted 0,
                          by_cat := (by_cat st)(cat := sorted)\<rparr>))))"

fun sort_categories :: "explore_state_t \<Rightarrow> nat list \<Rightarrow> (fault + explore_state_t) option" where
  "sort_categories st [] = Some (Inr st)"
| "sort_categories st (cat # cats) =
     (case sort_category st cat of
        None \<Rightarrow> None
      | Some (Inl f) \<Rightarrow> Some (Inl f)
      | Some (Inr st') \<Rightarrow> sort_categories st' cats)"

text \<open>Lines 751 to 766: the end of the build.\<close>

definition explore_build_finish :: "explore_state_t \<Rightarrow> (fault + explore_state_t) option" where
  "explore_build_finish st =
     (case sort_categories st [0..<EXPLORE_CAT_COUNT] of
        None \<Rightarrow> None
      | Some (Inl f) \<Rightarrow> Some (Inl f)
      | Some (Inr st') \<Rightarrow>
          Some (Inr (st'\<lparr>entries := qsort explore_qsort_func_entries (entries st')\<rparr>)))"

text \<open>\<^verbatim>\<open>explore_build_list\<close> from the matched records on.\<close>

definition explore_build_list :: "matched_record list \<Rightarrow> (fault + explore_state_t) option" where
  "explore_build_list rs =
     (case add_records build_init rs of
        None \<Rightarrow> None
      | Some (Inl f) \<Rightarrow> Some (Inl f)
      | Some (Inr b) \<Rightarrow> explore_build_finish (state b))"


subsection \<open>Filtering\<close>

text \<open>
  Modelled from the spec: \<^verbatim>\<open>strcasestr\<close> of \<^verbatim>\<open>compat/strcasestr.h\<close>, which is not
  among the sources; the free text is matched as a case-insensitive substring. The
  result says whether the pointer returned is not null.
\<close>

fun prefix_nocase :: "string \<Rightarrow> string \<Rightarrow> bool" where
  "prefix_nocase [] hs = True"
| "prefix_nocase (n # ns) [] = False"
| "prefix_nocase (n # ns) (h # hs) = (tolower n = tolower h \<and> prefix_nocase ns hs)"

fun strcasestr :: "string \<Rightarrow> string \<Rightarrow> bool" where
  "strcasestr [] needle = (needle = [])"
| "strcasestr (h # hs) needle = (prefix_nocase needle (h # hs) \<or> strcasestr hs needle)"

text \<open>
  The walk over the null-terminated array \<^verbatim>\<open>e->split\<close>, lines 1080 to 1087:
  \<^verbatim>\<open>do { if (*split == filter[lvl]) break; } while (*(++split));\<close> and then the test
  \<^verbatim>\<open>if (*split)\<close>. The list is the array with its terminator; a step beyond its last
  element leaves the array.
\<close>

fun split_search :: "string_ptr list \<Rightarrow> string_ptr \<Rightarrow> fault + bool" where
  "split_search [] filt = Inl OutOfBounds"
| "split_search (x # xs) filt =
     (if x = filt then Inr (x \<noteq> 0)
      else (case xs of
              [] \<Rightarrow> Inl OutOfBounds
            | y # ys \<Rightarrow> if y \<noteq> 0 then split_search xs filt else Inr False))"

text \<open>
  A level of the navigation path, as lines 1047 to 1066 store it in \<^verbatim>\<open>cats\<close>,
  \<^verbatim>\<open>use_split\<close> and \<^verbatim>\<open>filter\<close>; the filter is null for "Unknown".
\<close>

record level =
  l_cat :: nat
  l_use_split :: bool
  l_filter :: string_ptr

text \<open>
  The loop over the levels, lines 1074 to 1090: \<open>False\<close> is the
  \<^verbatim>\<open>goto SKIP_ENTRY\<close>.
\<close>

fun entry_passes_levels :: "explore_entry_t \<Rightarrow> level list \<Rightarrow> fault + bool" where
  "entry_passes_levels en [] = Inr True"
| "entry_passes_levels en (l # ls) =
     (if l_filter l = e_by en (l_cat l) then entry_passes_levels en ls
      else if l_use_split l \<and> e_split en \<noteq> None then
        (case split_search (the (e_split en)) (l_filter l) of
           Inl f \<Rightarrow> Inl f
         | Inr True \<Rightarrow> entry_passes_levels en ls
         | Inr False \<Rightarrow> Inr False)
      else Inr False)"

text \<open>Lines 1092 to 1095: the free text, tested when \<^verbatim>\<open>find_string\<close> is not empty.\<close>

definition entry_passes_find :: "explore_state_t \<Rightarrow> explore_entry_t \<Rightarrow> bool" where
  "entry_passes_find st en =
     (\<not> (rd (find_string st) 0 \<noteq> Inr NUL \<and> \<not> strcasestr (label_str en) (find_string st)))"

text \<open>
  The types of the menu items. \<^verbatim>\<open>MENU_SETTINGS_LAST\<close> comes from
  \<^verbatim>\<open>menu_driver.h\<close> and is a parameter here.
\<close>

definition EXPLORE_TYPE_FILTERNULL :: "uint32 \<Rightarrow> uint32" where
  "EXPLORE_TYPE_FILTERNULL settings_last = settings_last"

definition EXPLORE_TYPE_FIRSTCATEGORY :: "uint32 \<Rightarrow> uint32" where
  "EXPLORE_TYPE_FIRSTCATEGORY settings_last = settings_last + 3"

definition EXPLORE_TYPE_FIRSTITEM :: "uint32 \<Rightarrow> uint32" where
  "EXPLORE_TYPE_FIRSTITEM settings_last = EXPLORE_TYPE_FIRSTCATEGORY settings_last + 10"

text \<open>
  What the loop over the entries carries along: the menu list, the map
  \<^verbatim>\<open>map_filtered_category\<close> and the flag \<^verbatim>\<open>filtered_category_have_unknown\<close>.
  \<^verbatim>\<open>explore_menu_entry\<close> appends one item to the list.
\<close>

record filter_acc =
  menu_list :: "item_file list"
  map_filtered_category :: "nat ex_hashmap32"
  filtered_category_have_unknown :: bool

text \<open>
  Lines 1097 to 1120 for an entry that passed: \<open>current_cat\<close> is \<open>Some cat\<close> when
  \<^verbatim>\<open>is_filtered_category\<close> holds, \<open>k\<close> is \<^verbatim>\<open>e - explore_state->entries\<close>.
\<close>

definition emit_entry ::
  "uint32 \<Rightarrow> explore_state_t \<Rightarrow> nat option \<Rightarrow> explore_entry_t \<Rightarrow> nat \<Rightarrow> filter_acc
   \<Rightarrow> fault + filter_acc" where
  "emit_entry settings_last st current_cat en k acc =
     (case current_cat of
        Some cat \<Rightarrow>
          (let s = e_by en cat in
           if s = 0 then Inr (acc\<lparr>filtered_category_have_unknown := True\<rparr>)
           else if \<not> valid_ptr st s then Inl NullDeref
           else
             (case ex_hashmap32_getnum (map_filtered_category acc) (idx (deref st s) + 1) of
                None \<Rightarrow> Inl MapNoReturn
              | Some v \<Rightarrow>
                  if v \<noteq> 0 then Inr acc
                  else
                    (case ex_hashmap32_setnum (map_filtered_category acc) (idx (deref st s) + 1) 1 of
                       None \<Rightarrow> Inl MapNoReturn
                     | Some m' \<Rightarrow>
                         Inr (acc\<lparr>menu_list := menu_list acc @
                                     [\<lparr>path = str (deref st s),
                                       item_type = EXPLORE_TYPE_FIRSTITEM settings_last
                                                   + idx (deref st s)\<rparr>],
                                   map_filtered_category := m'\<rparr>))))
      | None \<Rightarrow>
          Inr (acc\<lparr>menu_list := menu_list acc @
                      [\<lparr>path = (case original_title en of Some t \<Rightarrow> t | None \<Rightarrow> label_str en),
                        item_type = EXPLORE_TYPE_FIRSTITEM settings_last + of_nat k\<rparr>]\<rparr>))"

text \<open>The loop \<^verbatim>\<open>for (; e != e_end; e++)\<close>, lines 1071 to 1123.\<close>

fun filter_entries ::
  "uint32 \<Rightarrow> explore_state_t \<Rightarrow> level list \<Rightarrow> nat option \<Rightarrow> explore_entry_t list \<Rightarrow> nat
   \<Rightarrow> filter_acc \<Rightarrow> fault + filter_acc" where
  "filter_entries settings_last st ls current_cat [] k acc = Inr acc"
| "filter_entries settings_last st ls current_cat (en # ens) k acc =
     (case entry_passes_levels en ls of
        Inl f \<Rightarrow> Inl f
      | Inr False \<Rightarrow> filter_entries settings_last st ls current_cat ens (k + 1) acc
      | Inr True \<Rightarrow>
          if \<not> entry_passes_find st en
          then filter_entries settings_last st ls current_cat ens (k + 1) acc
          else
            (case emit_entry settings_last st current_cat en k acc of
               Inl f \<Rightarrow> Inl f
             | Inr acc' \<Rightarrow> filter_entries settings_last st ls current_cat ens (k + 1) acc'))"

text \<open>
  Lines 1068 to 1133 of \<^verbatim>\<open>menu_displaylist_explore\<close>: the filtered list, added to the
  menu list \<open>items\<close>. With a current category the list holds the distinct values, sorted,
  and "Unknown" after them; without one it holds the entries.
\<close>

definition explore_filtered_list ::
  "uint32 \<Rightarrow> explore_state_t \<Rightarrow> level list \<Rightarrow> nat option \<Rightarrow> item_file list
   \<Rightarrow> fault + item_file list" where
  "explore_filtered_list settings_last st ls current_cat items =
     (case filter_entries settings_last st ls current_cat (entries st) 0
             \<lparr>menu_list = items, map_filtered_category = ex_hashmap32_zero,
              filtered_category_have_unknown = False\<rparr> of
        Inl f \<Rightarrow> Inl f
      | Inr acc \<Rightarrow>
          (let sorted = (if current_cat \<noteq> None
                         then qsort explore_qsort_func_menulist (menu_list acc)
                         else menu_list acc)
           in Inr (if current_cat \<noteq> None \<and> filtered_category_have_unknown acc
                   then sorted @ [\<lparr>path = ''Unknown'',
                                   item_type = EXPLORE_TYPE_FILTERNULL settings_last\<rparr>]
                   else sorted)))"


section \<open>Notions used in the statements\<close>

subsection \<open>The map as a table\<close>

text \<open>
  The capacities the map takes: the powers of two from 16 to \<open>2 ^ 31\<close>.
\<close>

definition is_cap :: "uint32 \<Rightarrow> bool" where
  "is_cap c = (\<exists>n. 4 \<le> n \<and> n \<le> 31 \<and> c = 2 ^ n)"

text \<open>
  The invariant of a table: the shape of the arrays; every key is reached from its
  home slot \<open>key mod cap\<close> over slots that are all taken; no key occurs twice.
\<close>

definition tbl_inv :: "'v ex_hashmap32 \<Rightarrow> bool" where
  "tbl_inv m =
     ((is_cap (cap m) \<and> length (keys m) = unat (cap m) \<and> length (vals m) = unat (cap m))
      \<and> (\<forall>i<length (keys m). keys m ! i \<noteq> 0 \<longrightarrow>
            (\<exists>d<length (keys m). (unat (keys m ! i) + d) mod length (keys m) = i
                \<and> (\<forall>t<d. keys m ! ((unat (keys m ! i) + t) mod length (keys m)) \<noteq> 0)))
      \<and> (\<forall>i<length (keys m). \<forall>j<length (keys m).
            keys m ! i = keys m ! j \<longrightarrow> keys m ! i \<noteq> 0 \<longrightarrow> i = j))"

text \<open>The number of slots taken.\<close>

definition live :: "'v ex_hashmap32 \<Rightarrow> nat" where
  "live m = length (filter (\<lambda>k. k \<noteq> 0) (keys m))"

text \<open>
  The invariant of the map: the zeroed map, or a table whose \<open>len\<close> counts the slots
  taken and is at most half the capacity.
\<close>

definition hm_inv :: "'v ex_hashmap32 \<Rightarrow> bool" where
  "hm_inv m =
     ((cap m = 0 \<and> len m = 0 \<and> keys m = [] \<and> vals m = [])
      \<or> (tbl_inv m \<and> unat (len m) = live m \<and> 2 * live m \<le> unat (cap m)))"

text \<open>What the map holds: the value stored with a key, for the keys other than 0.\<close>

definition hm_lookup :: "'v ex_hashmap32 \<Rightarrow> uint32 \<Rightarrow> 'v option" where
  "hm_lookup m k = (if k = 0 then None else map_of (zip (keys m) (vals m)) k)"

text \<open>
  The outer loop of \<^verbatim>\<open>ex_hashmap32__grow\<close> as a recursion over the pairs of the old
  arrays (lemma \<open>grow_loop_rehash\<close>).
\<close>

fun rehash :: "(uint32 \<times> 'v) list \<Rightarrow> 'v ex_hashmap32 \<Rightarrow> 'v ex_hashmap32 option" where
  "rehash [] m = Some m"
| "rehash ((k, v) # es) m =
     (if k = 0 then rehash es m
      else case grow_probe m k v (ucast k) of None \<Rightarrow> None | Some m' \<Rightarrow> rehash es m')"

definition tbl_shape :: "'v ex_hashmap32 \<Rightarrow> bool" where
  "tbl_shape m = (is_cap (cap m) \<and> length (keys m) = unat (cap m) \<and> length (vals m) = unat (cap m))"

subsection \<open>The split values of an entry\<close>

text \<open>
  The array \<^verbatim>\<open>e->split\<close> as lines 725 to 735 make it: null, or at least one pointer
  that is not null and then the terminator. The split values are the pointers before the
  terminator.
\<close>

definition split_wellformed :: "string_ptr list option \<Rightarrow> bool" where
  "split_wellformed sp =
     (case sp of
        None \<Rightarrow> True
      | Some arr \<Rightarrow> arr \<noteq> [] \<and> butlast arr \<noteq> [] \<and> 0 \<notin> set (butlast arr) \<and> last arr = 0)"

definition split_values :: "explore_entry_t \<Rightarrow> string_ptr list" where
  "split_values en = (case e_split en of None \<Rightarrow> [] | Some arr \<Rightarrow> butlast arr)"

subsection \<open>Comparing by the strings of the arena\<close>

text \<open>
  \<^verbatim>\<open>explore_qsort_func_strings\<close> on valid pointers, in terms of the strings \<open>S\<close> of the
  arena alone: assigning \<^verbatim>\<open>idx\<close> does not change it.
\<close>

definition cmp_strings :: "string list \<Rightarrow> string_ptr \<Rightarrow> string_ptr \<Rightarrow> int" where
  "cmp_strings S a b = explore_qsort_func (S ! (a - 1)) (S ! (b - 1))"

subsection \<open>Interning\<close>

text \<open>
  The hash of a segment, and what holds of the map of a category during a build: it is
  a map in the sense above, the pointers it holds are strings of the arena, and no
  pointer is held under two hashes.
\<close>

definition seg_hash :: "string \<Rightarrow> uint32" where
  "seg_hash bytes = ex_hash32_nocase_filtered bytes 48 255"


subsection \<open>The build\<close>

text \<open>
  A field as the database delivers it: a C string, without the byte 0 before its
  terminator, and short enough for its addresses.
\<close>

definition cstring :: "string \<Rightarrow> bool" where
  "cstring s = (NUL \<notin> set s \<and> int (length s) < 2 ^ 63)"

text \<open>
  What one round of the loop of \<^verbatim>\<open>explore_add_unique_string\<close> does to the build: nothing,
  or it interns the bytes of one segment and attaches the value to the entry.
\<close>

definition segment_added :: "nat \<Rightarrow> bool \<Rightarrow> string \<Rightarrow> int \<Rightarrow> build_t \<Rightarrow> build_t \<Rightarrow> bool" where
  "segment_added cat has_buf s str0 b b' =
     (b' = b
      \<or> (\<exists>bytes entry b1.
            (cstring s \<and> 0 \<le> str0 \<longrightarrow> NUL \<notin> set bytes)
            \<and> intern_segment cat bytes b = Inr (entry, b1)
            \<and> attach_value cat has_buf entry b1 = Inr b'))"

text \<open>
  What holds of the split buffer and the entries while the fields of a record are read.
\<close>

definition entries_inv :: "build_t \<Rightarrow> bool" where
  "entries_inv b =
     (0 \<notin> set (split_buf b) \<and> e_split (e b) = None
      \<and> (\<forall>en\<in>set (entries (state b)). split_wellformed (e_split en)))"

text \<open>
  What holds of the maps, the arrays and the entries during a build: every map is a map
  in the sense above and holds pointers of the array of its category; every pointer of an
  array is a string of the arena, entered in the map under the hash of that string; the
  arrays have no pointer twice and no pointer in common; the primary values of the
  entries are null or pointers of the arrays; no string of the arena holds the byte 0.
\<close>

definition build_inv :: "build_t \<Rightarrow> bool" where
  "build_inv b =
     ((\<forall>c. hm_inv (maps b c))
      \<and> (\<forall>c k p. hm_lookup (maps b c) k = Some p \<longrightarrow> p \<in> set (by_cat (state b) c))
      \<and> (\<forall>c. \<forall>p\<in>set (by_cat (state b) c).
             valid_ptr (state b) p
             \<and> hm_lookup (maps b c) (seg_hash (str (deref (state b) p))) = Some p)
      \<and> (\<forall>c. distinct (by_cat (state b) c))
      \<and> (\<forall>c c'. c \<noteq> c' \<longrightarrow> set (by_cat (state b) c) \<inter> set (by_cat (state b) c') = {})
      \<and> (\<forall>c. e_by (e b) c = 0 \<or> e_by (e b) c \<in> set (by_cat (state b) c))
      \<and> (\<forall>en\<in>set (entries (state b)). \<forall>c. e_by en c = 0 \<or> e_by en c \<in> set (by_cat (state b) c))
      \<and> (\<forall>x\<in>set (arena (state b)). NUL \<notin> set (str x)))"

text \<open>The fields and the system names of the records are C strings.\<close>

definition records_ok :: "matched_record list \<Rightarrow> bool" where
  "records_ok rs =
     list_all (\<lambda>r. list_all (\<lambda>c. case r_fields r c of None \<Rightarrow> True | Some s \<Rightarrow> cstring s)
                           [0..<EXPLORE_CAT_COUNT]
                  \<and> (case r_systemname r of None \<Rightarrow> True | Some s \<Rightarrow> cstring s)) rs"

subsection \<open>The distinct values of a category\<close>

text \<open>
  An entry passes when it gets through the levels and the free text.
\<close>

definition entry_passes :: "explore_state_t \<Rightarrow> level list \<Rightarrow> explore_entry_t \<Rightarrow> bool" where
  "entry_passes st ls en = (entry_passes_levels en ls = Inr True \<and> entry_passes_find st en)"

text \<open>
  The menu item of a value, and the item "Unknown".
\<close>

definition value_item :: "uint32 \<Rightarrow> explore_state_t \<Rightarrow> string_ptr \<Rightarrow> item_file" where
  "value_item settings_last st p =
     \<lparr>path = str (deref st p),
      item_type = EXPLORE_TYPE_FIRSTITEM settings_last + idx (deref st p)\<rparr>"

definition unknown_item :: "uint32 \<Rightarrow> item_file" where
  "unknown_item settings_last =
     \<lparr>path = ''Unknown'', item_type = EXPLORE_TYPE_FILTERNULL settings_last\<rparr>"

text \<open>
  What the build leaves for a category: the pointers of \<^verbatim>\<open>by[cat]\<close> are strings of the arena,
  \<^verbatim>\<open>idx\<close> is the position in the array, the array ascends strictly under
  \<^verbatim>\<open>explore_qsort_func_strings\<close> and has at most \<open>2 ^ 30\<close> values; the split array of every
  entry is null or terminated, and its primary value is null or a value of the array.
\<close>

definition index_inv :: "explore_state_t \<Rightarrow> nat \<Rightarrow> bool" where
  "index_inv st cat =
     (list_all (valid_ptr st) (by_cat st cat)
      \<and> list_all (\<lambda>i. idx (deref st (by_cat st cat ! i)) = of_nat i) [0..<length (by_cat st cat)]
      \<and> sorted_wrt (\<lambda>a b. explore_qsort_func_strings st a b < 0) (by_cat st cat)
      \<and> int (length (by_cat st cat)) \<le> 2 ^ 30
      \<and> list_all (\<lambda>en. split_wellformed (e_split en)
                        \<and> (e_by en cat = 0 \<or> e_by en cat \<in> set (by_cat st cat))) (entries st))"

text \<open>
  The values for which the loop adds an item, in the order of the entries: the primary
  values of the passing entries, each at its first occurrence.
\<close>

fun first_seen ::
  "explore_state_t \<Rightarrow> level list \<Rightarrow> nat \<Rightarrow> explore_entry_t list \<Rightarrow> string_ptr list
   \<Rightarrow> string_ptr list" where
  "first_seen st ls cat [] seen = seen"
| "first_seen st ls cat (en # ens) seen =
     first_seen st ls cat ens
       (if entry_passes st ls en \<and> e_by en cat \<noteq> 0 \<and> e_by en cat \<notin> set seen
        then seen @ [e_by en cat] else seen)"

text \<open>
  The invariant of the loop: the items are those of the values seen, and
  \<^verbatim>\<open>map_filtered_category\<close> holds \<^verbatim>\<open>idx + 1\<close> of exactly these values.
\<close>

definition seen_inv ::
  "uint32 \<Rightarrow> explore_state_t \<Rightarrow> string_ptr list \<Rightarrow> filter_acc \<Rightarrow> string_ptr list \<Rightarrow> bool" where
  "seen_inv settings_last st ps acc seen =
     (menu_list acc = map (value_item settings_last st) seen
      \<and> hm_inv (map_filtered_category acc)
      \<and> (\<forall>p\<in>set ps. hm_lookup (map_filtered_category acc) (idx (deref st p) + 1)
                       = (if p \<in> set seen then Some 1 else None))
      \<and> unat (len (map_filtered_category acc)) \<le> length seen
      \<and> distinct seen \<and> set seen \<subseteq> set ps)"

section \<open>Properties\<close>

subsection \<open>The open-addressing map\<close>

lemma mask32: "unat ((i::32 word) AND (2 ^ n - 1)) = unat i mod 2 ^ n"
proof -
  have "i AND (2 ^ n - 1) = take_bit n i"
    by (simp flip: mask_eq_exp_minus_1 add: take_bit_eq_mask)
  then have "unat (i AND (2 ^ n - 1)) = take_bit n (unat i)"
    by (simp add: unsigned_take_bit_eq)
  then show ?thesis by (simp add: take_bit_eq_mod)
qed

lemma mask64: "n \<le> 32 \<Longrightarrow> unat ((j::64 word) AND ucast ((2::32 word) ^ n - 1)) = unat j mod 2 ^ n"
proof -
  assume n: "n \<le> 32"
  have "(ucast ((2::32 word) ^ n - 1) :: 64 word) = mask n"
    using n by (simp flip: mask_eq_exp_minus_1 add: ucast_mask_eq min_def)
  then have "j AND ucast ((2::32 word) ^ n - 1) = take_bit n j"
    by (simp add: take_bit_eq_mask)
  then have "unat (j AND ucast ((2::32 word) ^ n - 1)) = take_bit n (unat j)"
    by (simp add: unsigned_take_bit_eq)
  then show ?thesis by (simp add: take_bit_eq_mod)
qed

lemma ucast_up: "unat (ucast (k::32 word) :: 64 word) = unat k"
proof -
  have "unat k < 2 ^ 32" using unsigned_less [of k, where 'a = nat] by simp
  then show ?thesis by (simp add: unsigned_ucast_eq take_bit_eq_mod)
qed

lemma unat_2p32: "n \<le> 31 \<Longrightarrow> unat ((2::32 word) ^ n) = 2 ^ n"
proof -
  assume "n \<le> 31"
  then have "(2::nat) ^ n < 2 ^ 32" by (intro power_strict_increasing) simp_all
  moreover have "(2::32 word) ^ n = of_nat (2 ^ n)" by simp
  ultimately show ?thesis by (simp only: unat_of_nat) simp
qed

lemma is_capD: "is_cap c \<Longrightarrow> \<exists>n. 4 \<le> n \<and> n \<le> 31 \<and> c = 2 ^ n \<and> unat c = 2 ^ n"
  unfolding is_cap_def using unat_2p32 by blast

lemma cap_pos: "is_cap c \<Longrightarrow> 16 \<le> unat c"
proof -
  assume "is_cap c"
  then obtain n where n: "4 \<le> n" "unat c = 2 ^ n" using is_capD by blast
  have "(2::nat) ^ 4 \<le> 2 ^ n" using n(1) by (intro power_increasing) simp_all
  moreover have "(2::nat) ^ 4 = 16" by simp
  ultimately show ?thesis using n(2) by simp
qed

lemma cap_le: "is_cap c \<Longrightarrow> unat c \<le> 2 ^ 31"
  by (metis is_capD one_le_numeral power_increasing)

lemma slot32: "is_cap c \<Longrightarrow> unat (i AND (c - 1)) = unat i mod unat c"
  using is_capD[of c] mask32 by metis

lemma slot64: "is_cap c \<Longrightarrow> unat ((j::64 word) AND ucast (c - 1)) = unat j mod unat c"
proof -
  assume "is_cap c"
  then obtain n where n: "n \<le> 31" "c = 2 ^ n" "unat c = 2 ^ n" using is_capD by blast
  show ?thesis using mask64 [of n j] n by simp
qed

lemma of_nat_slot32: "s \<le> unat (c::32 word) \<Longrightarrow> unat (of_nat s :: 32 word) = s"
  by (rule le_unat_uoi)

lemma of_nat_slot64: "s \<le> unat (c::32 word) \<Longrightarrow> unat (of_nat s :: 64 word) = s"
  by (metis le_unat_uoi ucast_up)

lemma walk_steps:
  fixes G :: "nat \<Rightarrow> 'r" and c h d :: nat
  assumes step: "\<And>s. s < c \<Longrightarrow> \<not> P s \<Longrightarrow> G s = G ((s + 1) mod c)"
    and c: "0 < c"
    and nostop: "\<forall>t<d. \<not> P ((h + t) mod c)"
  shows "G (h mod c) = G ((h + d) mod c)"
  using nostop
proof (induction d)
  case 0
  show ?case by simp
next
  case (Suc d)
  have "G (h mod c) = G ((h + d) mod c)" using Suc by simp
  also have "\<dots> = G (((h + d) mod c + 1) mod c)"
    using step [of "(h + d) mod c"] c Suc.prems by simp
  also have "((h + d) mod c + 1) mod c = (h + Suc d) mod c"
    by (simp add: mod_Suc_eq)
  finally show ?case .
qed

lemma first_stop:
  fixes z c h :: nat
  assumes "z < c" "P z"
  shows "\<exists>d<c. P ((h + d) mod c) \<and> (\<forall>t<d. \<not> P ((h + t) mod c))"
proof -
  define d0 where "d0 = (z + c - h mod c) mod c"
  have "(h + d0) mod c = z"
  proof -
    have "(h + d0) mod c = (h mod c + (z + c - h mod c)) mod c"
      unfolding d0_def by (metis mod_add_left_eq mod_add_right_eq)
    also have "h mod c + (z + c - h mod c) = z + c"
    proof -
      have "h mod c < c" using assms(1) by simp
      then show ?thesis by simp
    qed
    finally show ?thesis using assms(1) by simp
  qed
  then have ex: "P ((h + d0) mod c)" using assms by simp
  define d where "d = (LEAST d. P ((h + d) mod c))"
  have 1: "P ((h + d) mod c)" unfolding d_def using ex by (rule LeastI)
  have "d \<le> d0" unfolding d_def using ex by (rule Least_le)
  moreover have "d0 < c" unfolding d0_def using assms(1) by simp
  ultimately have 2: "d < c" by simp
  have 3: "\<forall>t<d. \<not> P ((h + t) mod c)"
    unfolding d_def using not_less_Least by blast
  from 1 2 3 show ?thesis by blast
qed


lemma getnum_probe_slot:
  assumes "tbl_shape m"
  shows "getnum_probe m key i =
     (let s = unat i mod unat (cap m) in
      if keys m ! s = key then Some (vals m ! s)
      else if keys m ! s = 0 then Some 0
      else getnum_probe m key (of_nat (s + 1)))"
proof -
  have c: "is_cap (cap m)" and lk: "length (keys m) = unat (cap m)"
    and lv: "length (vals m) = unat (cap m)"
    using assms by (simp_all add: tbl_shape_def)
  have pos: "0 < unat (cap m)" using cap_pos [OF c] by simp
  have s: "unat (i AND (cap m - 1)) = unat i mod unat (cap m)" by (rule slot32 [OF c])
  have lt: "unat i mod unat (cap m) < unat (cap m)" using pos by simp
  have "i AND (cap m - 1) = of_nat (unat i mod unat (cap m))"
    using s lt by (simp add: word_unat_eq_iff le_unat_uoi [of _ "cap m"])
  then have nxt: "(i AND (cap m - 1)) + 1 = of_nat (unat i mod unat (cap m) + 1)" by simp
  show ?thesis
    by (subst getnum_probe.simps) (simp add: Let_def s lt lk lv nxt del: of_nat_add of_nat_Suc)
qed


lemma tbl_inv_shape: "tbl_inv m \<Longrightarrow> tbl_shape m"
  by (simp add: tbl_inv_def tbl_shape_def)

lemma map_of_zip_unique:
  "length xs = length ys \<Longrightarrow> i < length xs \<Longrightarrow> (\<forall>j<length xs. xs ! j = xs ! i \<longrightarrow> j = i)
   \<Longrightarrow> map_of (zip xs ys) (xs ! i) = Some (ys ! i)"
proof (induction xs ys arbitrary: i rule: list_induct2)
  case Nil
  then show ?case by simp
next
  case (Cons x xs y ys)
  show ?case
  proof (cases i)
    case 0
    then show ?thesis by simp
  next
    case (Suc i')
    have ne: "x \<noteq> xs ! i'"
      using Cons.prems(2) [rule_format, of 0] Suc by auto
    have "\<forall>j<length xs. xs ! j = xs ! i' \<longrightarrow> j = i'"
      using Cons.prems(2) Suc by (metis Suc_less_eq length_Cons nat.inject nth_Cons_Suc)
    then have "map_of (zip xs ys) (xs ! i') = Some (ys ! i')"
      using Cons.IH [of i'] Cons.prems(1) Suc by simp
    then show ?thesis using Suc ne by simp
  qed
qed

lemma lookup_at:
  assumes "tbl_inv m" "i < length (keys m)" "keys m ! i = k" "k \<noteq> 0"
  shows "hm_lookup m k = Some (vals m ! i)"
proof -
  have len: "length (keys m) = length (vals m)" using assms(1) by (simp add: tbl_inv_def)
  have "\<forall>j<length (keys m). keys m ! j = keys m ! i \<longrightarrow> j = i"
    using assms by (auto simp: tbl_inv_def)
  then have "map_of (zip (keys m) (vals m)) (keys m ! i) = Some (vals m ! i)"
    using map_of_zip_unique [OF len assms(2)] by simp
  then show ?thesis using assms(3,4) by (simp add: hm_lookup_def)
qed

lemma lookup_none:
  assumes "length (keys m) = length (vals m)" "k \<notin> set (keys m)"
  shows "hm_lookup m k = None"
  using assms by (simp add: hm_lookup_def map_of_zip_is_None)

lemma lookup_some_in:
  assumes "length (keys m) = length (vals m)" "hm_lookup m k = Some v"
  shows "k \<noteq> 0 \<and> k \<in> set (keys m)"
  using assms lookup_none [of m k] by (auto simp: hm_lookup_def split: if_splits)

lemma exists_empty:
  assumes "live m < length (keys m)"
  shows "\<exists>z<length (keys m). keys m ! z = 0"
proof (rule ccontr)
  assume "\<not> ?thesis"
  then have "\<forall>k\<in>set (keys m). k \<noteq> 0" by (metis in_set_conv_nth)
  then have "filter (\<lambda>k. k \<noteq> 0) (keys m) = keys m" by (simp add: filter_id_conv)
  then show False using assms by (simp add: live_def)
qed

lemma probe_path:
  assumes inv: "tbl_inv m" and room: "live m < length (keys m)" and k: "k \<noteq> 0"
  shows "\<exists>d<length (keys m).
           (\<forall>t<d. keys m ! ((unat k + t) mod length (keys m)) \<noteq> k
                 \<and> keys m ! ((unat k + t) mod length (keys m)) \<noteq> 0)
         \<and> (keys m ! ((unat k + d) mod length (keys m)) = k
            \<or> (keys m ! ((unat k + d) mod length (keys m)) = 0 \<and> k \<notin> set (keys m)))"
proof -
  let ?c = "length (keys m)"
  let ?P = "\<lambda>s. keys m ! s = k \<or> keys m ! s = 0"
  obtain z where z: "z < ?c" "keys m ! z = 0" using exists_empty [OF room] by blast
  then have "?P z" by simp
  from first_stop [of z ?c ?P "unat k", OF z(1) this]
  obtain d where d: "d < ?c" "?P ((unat k + d) mod ?c)" "\<forall>t<d. \<not> ?P ((unat k + t) mod ?c)"
    by blast
  show ?thesis
  proof (cases "keys m ! ((unat k + d) mod ?c) = k")
    case True
    then show ?thesis using d by blast
  next
    case False
    then have zero: "keys m ! ((unat k + d) mod ?c) = 0" using d(2) by simp
    have "k \<notin> set (keys m)"
    proof
      assume "k \<in> set (keys m)"
      then obtain i where i: "i < ?c" "keys m ! i = k" by (metis in_set_conv_nth)
      then obtain d' where d': "d' < ?c" "(unat k + d') mod ?c = i"
          "\<forall>t<d'. keys m ! ((unat k + t) mod ?c) \<noteq> 0"
        using inv k unfolding tbl_inv_def by blast
      have "\<not> d < d'" using d'(3) zero by blast
      moreover have "d \<noteq> d'" using d'(2) i(2) False by auto
      moreover have "\<not> d' < d" using d(3) d'(2) i(2) by blast
      ultimately show False by linarith
    qed
    then show ?thesis using d zero by blast
  qed
qed


lemma unat_of_nat_slot:
  "s \<le> unat (c::32 word) \<Longrightarrow> unat (of_nat s :: 32 word) mod unat c = s mod unat c"
  by (simp add: le_unat_uoi)

lemma getnum_probe_cong:
  assumes "tbl_shape m" "unat i mod unat (cap m) = unat i' mod unat (cap m)"
  shows "getnum_probe m key i = getnum_probe m key i'"
  using getnum_probe_slot [OF assms(1), of key i] getnum_probe_slot [OF assms(1), of key i']
    assms(2) by simp

lemma getnum_probe_walk:
  assumes sh: "tbl_shape m"
    and path: "\<forall>t<d. keys m ! ((h + t) mod unat (cap m)) \<noteq> key
                    \<and> keys m ! ((h + t) mod unat (cap m)) \<noteq> 0"
  shows "getnum_probe m key (of_nat (h mod unat (cap m)))
       = getnum_probe m key (of_nat ((h + d) mod unat (cap m)))"
proof -
  let ?c = "unat (cap m)"
  have pos: "0 < ?c" using sh cap_pos [of "cap m"] by (simp add: tbl_shape_def)
  have step: "getnum_probe m key (of_nat s) = getnum_probe m key (of_nat ((s + 1) mod ?c))"
    if "s < ?c" "\<not> (keys m ! s = key \<or> keys m ! s = 0)" for s
  proof -
    have "unat (of_nat s :: 32 word) mod ?c = s"
      using that(1) by (simp add: le_unat_uoi [of s "cap m"])
    then have "getnum_probe m key (of_nat s) = getnum_probe m key (of_nat (s + 1))"
      using getnum_probe_slot [OF sh, of key "of_nat s"] that(2) by (simp add: Let_def)
    also have "\<dots> = getnum_probe m key (of_nat ((s + 1) mod ?c))"
    proof (rule getnum_probe_cong [OF sh])
      have "unat (of_nat (s + 1) :: 32 word) = s + 1"
        using that(1) by (intro le_unat_uoi [of _ "cap m"]) simp
      moreover have "unat (of_nat ((s + 1) mod ?c) :: 32 word) = (s + 1) mod ?c"
        using pos by (intro le_unat_uoi [of _ "cap m"]) simp
      ultimately show "unat (of_nat (s + 1) :: 32 word) mod ?c
          = unat (of_nat ((s + 1) mod ?c) :: 32 word) mod ?c"
        by simp
    qed
    finally show ?thesis .
  qed
  show ?thesis
    using walk_steps [of ?c "\<lambda>s. keys m ! s = key \<or> keys m ! s = 0"
        "\<lambda>s. getnum_probe m key (of_nat s)" d h] step pos path
    by blast
qed

lemma getnum_probe_start:
  assumes sh: "tbl_shape m"
  shows "getnum_probe m key i = getnum_probe m key (of_nat (unat i mod unat (cap m)))"
proof (rule getnum_probe_cong [OF sh])
  have pos: "0 < unat (cap m)" using sh cap_pos [of "cap m"] by (simp add: tbl_shape_def)
  have "unat (of_nat (unat i mod unat (cap m)) :: 32 word) = unat i mod unat (cap m)"
    using pos by (intro le_unat_uoi [of _ "cap m"]) simp
  then show "unat i mod unat (cap m)
      = unat (of_nat (unat i mod unat (cap m)) :: 32 word) mod unat (cap m)"
    by simp
qed

lemma getnum_probe_stop:
  assumes sh: "tbl_shape m" and s: "s < unat (cap m)"
  shows "keys m ! s = key \<Longrightarrow> getnum_probe m key (of_nat s) = Some (vals m ! s)"
    and "keys m ! s \<noteq> key \<Longrightarrow> keys m ! s = 0 \<Longrightarrow> getnum_probe m key (of_nat s) = Some 0"
proof -
  have "unat (of_nat s :: 32 word) mod unat (cap m) = s"
    using s by (simp add: le_unat_uoi [of s "cap m"])
  then show "keys m ! s = key \<Longrightarrow> getnum_probe m key (of_nat s) = Some (vals m ! s)"
    and "keys m ! s \<noteq> key \<Longrightarrow> keys m ! s = 0 \<Longrightarrow> getnum_probe m key (of_nat s) = Some 0"
    using getnum_probe_slot [OF sh, of key "of_nat s"] by (simp_all add: Let_def)
qed

lemma live_room:
  assumes "tbl_inv m" "2 * live m \<le> unat (cap m)"
  shows "live m < length (keys m)"
proof -
  have "16 \<le> unat (cap m)" using assms(1) cap_pos by (simp add: tbl_inv_def)
  moreover have "length (keys m) = unat (cap m)" using assms(1) by (simp add: tbl_inv_def)
  ultimately show ?thesis using assms(2) by linarith
qed

lemma live_zero: "live m = 0 \<Longrightarrow> k \<noteq> 0 \<Longrightarrow> k \<notin> set (keys m)"
  by (auto simp: live_def filter_empty_conv)

lemma getnum_correct:
  assumes "hm_inv m"
  shows "ex_hashmap32_getnum m k = Some (case hm_lookup m k of None \<Rightarrow> 0 | Some v \<Rightarrow> v)"
proof (cases "len m = 0 \<or> k = 0")
  case True
  have "hm_lookup m k = None"
  proof (cases "k = 0")
    case True
    then show ?thesis by (simp add: hm_lookup_def)
  next
    case False
    then have "len m = 0" using True by simp
    then have "k \<notin> set (keys m)"
      using assms False live_zero [of m k] by (auto simp: hm_inv_def)
    moreover have "length (keys m) = length (vals m)"
      using assms by (auto simp: hm_inv_def tbl_inv_def)
    ultimately show ?thesis by (rule lookup_none [rotated])
  qed
  then show ?thesis using True by (simp add: ex_hashmap32_getnum_def)
next
  case False
  then have k: "k \<noteq> 0" and "len m \<noteq> 0" by simp_all
  then have inv: "tbl_inv m" and half: "2 * live m \<le> unat (cap m)"
    using assms by (auto simp: hm_inv_def)
  have sh: "tbl_shape m" using inv by (rule tbl_inv_shape)
  have lk: "length (keys m) = unat (cap m)" using inv by (simp add: tbl_inv_def)
  from probe_path [OF inv live_room [OF inv half] k]
  obtain d where d: "d < unat (cap m)"
    "\<forall>t<d. keys m ! ((unat k + t) mod unat (cap m)) \<noteq> k
          \<and> keys m ! ((unat k + t) mod unat (cap m)) \<noteq> 0"
    "keys m ! ((unat k + d) mod unat (cap m)) = k
       \<or> (keys m ! ((unat k + d) mod unat (cap m)) = 0 \<and> k \<notin> set (keys m))"
    unfolding lk by blast
  let ?s = "(unat k + d) mod unat (cap m)"
  have s: "?s < unat (cap m)" using d(1) by simp
  have "ex_hashmap32_getnum m k = getnum_probe m k k"
    using False by (simp add: ex_hashmap32_getnum_def)
  also have "\<dots> = getnum_probe m k (of_nat (unat k mod unat (cap m)))"
    by (rule getnum_probe_start [OF sh])
  also have "\<dots> = getnum_probe m k (of_nat ?s)"
    by (rule getnum_probe_walk [OF sh d(2)])
  finally have eq: "ex_hashmap32_getnum m k = getnum_probe m k (of_nat ?s)" .
  show ?thesis
  proof (cases "keys m ! ?s = k")
    case True
    have "hm_lookup m k = Some (vals m ! ?s)"
      using lookup_at [OF inv _ True k] s lk by simp
    then show ?thesis using eq getnum_probe_stop(1) [OF sh s True] by simp
  next
    case False
    then have z: "keys m ! ?s = 0" and "k \<notin> set (keys m)" using d(3) by simp_all
    then have "hm_lookup m k = None"
      using lookup_none [of m k] inv by (simp add: tbl_inv_def)
    then show ?thesis using eq getnum_probe_stop(2) [OF sh s False z] by simp
  qed
qed


lemma filter_update_count:
  "s < length xs \<Longrightarrow> \<not> P (xs ! s) \<Longrightarrow> P x
   \<Longrightarrow> length (filter P (xs[s := x])) = Suc (length (filter P xs))"
  by (induction xs arbitrary: s) (auto split: nat.splits)

lemma insert_slot:
  assumes inv: "tbl_inv m" and k: "k \<noteq> 0" and new: "k \<notin> set (keys m)"
    and d: "d < length (keys m)"
    and z: "keys m ! ((unat k + d) mod length (keys m)) = 0"
    and path: "\<forall>t<d. keys m ! ((unat k + t) mod length (keys m)) \<noteq> 0"
    and km: "keys m' = (keys m)[(unat k + d) mod length (keys m) := k]"
    and vm: "vals m' = (vals m)[(unat k + d) mod length (keys m) := v]"
    and cm: "cap m' = cap m"
  shows "tbl_inv m'" and "hm_lookup m' = (hm_lookup m)(k \<mapsto> v)" and "live m' = Suc (live m)"
proof -
  let ?c = "length (keys m)"
  let ?s = "(unat k + d) mod ?c"
  have pos: "0 < ?c" using d by auto
  have s: "?s < ?c" using pos by simp
  have lv: "length (vals m) = ?c" using inv by (simp add: tbl_inv_def)
  have nth: "keys m' ! i = (if i = ?s then k else keys m ! i)" if "i < ?c" for i
    using that km by (simp add: nth_list_update)
  have nz: "keys m' ! i \<noteq> 0" if "i < ?c" "keys m ! i \<noteq> 0" for i
    using that nth k by simp
  have reach: "\<exists>d'<?c. (unat (keys m' ! i) + d') mod ?c = i
        \<and> (\<forall>t<d'. keys m' ! ((unat (keys m' ! i) + t) mod ?c) \<noteq> 0)"
    if i: "i < ?c" "keys m' ! i \<noteq> 0" for i
  proof (cases "i = ?s")
    case True
    then have "keys m' ! i = k" using nth i(1) by simp
    moreover have "\<forall>t<d. keys m' ! ((unat k + t) mod ?c) \<noteq> 0"
      using path nz pos by (metis mod_less_divisor)
    ultimately show ?thesis using d True by auto
  next
    case False
    then have eq: "keys m' ! i = keys m ! i" using nth i(1) by simp
    then obtain d' where d': "d' < ?c" "(unat (keys m ! i) + d') mod ?c = i"
        "\<forall>t<d'. keys m ! ((unat (keys m ! i) + t) mod ?c) \<noteq> 0"
      using inv i unfolding tbl_inv_def by metis
    have "\<forall>t<d'. keys m' ! ((unat (keys m ! i) + t) mod ?c) \<noteq> 0"
      using d'(3) nz pos by (metis mod_less_divisor)
    then show ?thesis using d'(1,2) eq by auto
  qed
  have old_distinct: "i = j"
    if "i < ?c" "j < ?c" "keys m ! i = keys m ! j" "keys m ! i \<noteq> 0" for i j
    using inv that unfolding tbl_inv_def by blast
  have distinct: "i = j"
    if ij: "i < ?c" "j < ?c" "keys m' ! i = keys m' ! j" "keys m' ! i \<noteq> 0" for i j
  proof -
    have a: "keys m ! j \<noteq> k" "keys m ! i \<noteq> k" using new ij(1,2) by (metis nth_mem)+
    show ?thesis
      using ij nth [of i] nth [of j] a old_distinct [of i j] by (auto split: if_splits)
  qed
  have shape': "is_cap (cap m') \<and> ?c = unat (cap m')
      \<and> length (vals m') = unat (cap m')"
    using inv km vm cm by (simp add: tbl_inv_def)
  have lk': "length (keys m') = ?c" using km by simp
  show inv': "tbl_inv m'"
    unfolding tbl_inv_def lk' using shape' reach distinct by blast
  show "live m' = Suc (live m)"
    unfolding live_def km using filter_update_count [of ?s "keys m" "\<lambda>k. k \<noteq> 0" k] s z k
    by simp
  show "hm_lookup m' = (hm_lookup m)(k \<mapsto> v)"
  proof
    fix k'
    have lk': "length (keys m') = ?c" "length (vals m') = ?c" using km vm lv by simp_all
    show "hm_lookup m' k' = ((hm_lookup m)(k \<mapsto> v)) k'"
    proof (cases "k' = k")
      case True
      have "keys m' ! ?s = k" using nth s by simp
      then have "hm_lookup m' k = Some (vals m' ! ?s)"
        using lookup_at [OF inv', of ?s k] s k lk' by simp
      then show ?thesis using True vm s lv by simp
    next
      case False
      show ?thesis
      proof (cases "k' \<noteq> 0 \<and> k' \<in> set (keys m)")
        case True
        then obtain i where i: "i < ?c" "keys m ! i = k'" by (metis in_set_conv_nth)
        then have ne: "i \<noteq> ?s" using z True by auto
        then have "keys m' ! i = k'" using nth i by simp
        then have "hm_lookup m' k' = Some (vals m' ! i)"
          using lookup_at [OF inv', of i k'] i lk' True by simp
        moreover have "hm_lookup m k' = Some (vals m ! i)"
          using lookup_at [OF inv, of i k'] i True by simp
        ultimately show ?thesis using False ne vm by simp
      next
        case False
        then have a: "hm_lookup m k' = None"
          using lookup_none [of m k'] lv by (auto simp: hm_lookup_def)
        have "k' = 0 \<or> k' \<notin> set (keys m')"
          using False \<open>k' \<noteq> k\<close> km set_update_subset_insert [of "keys m" ?s k] by auto
        then have "hm_lookup m' k' = None"
          using lookup_none [of m' k'] lk' by (auto simp: hm_lookup_def)
        then show ?thesis using a \<open>k' \<noteq> k\<close> by simp
      qed
    qed
  qed
qed

lemma update_slot:
  assumes inv: "tbl_inv m" and k: "k \<noteq> 0" and s: "s < length (keys m)" and at: "keys m ! s = k"
    and km: "keys m' = keys m" and vm: "vals m' = (vals m)[s := v]" and cm: "cap m' = cap m"
  shows "tbl_inv m'" and "hm_lookup m' = (hm_lookup m)(k \<mapsto> v)" and "live m' = live m"
proof -
  have lv: "length (vals m) = length (keys m)" using inv by (simp add: tbl_inv_def)
  show inv': "tbl_inv m'"
    using inv unfolding tbl_inv_def km vm cm length_list_update .
  show "live m' = live m" using km by (simp add: live_def)
  show "hm_lookup m' = (hm_lookup m)(k \<mapsto> v)"
  proof
    fix k'
    show "hm_lookup m' k' = ((hm_lookup m)(k \<mapsto> v)) k'"
    proof (cases "k' = k")
      case True
      have "hm_lookup m' k = Some (vals m' ! s)"
        using lookup_at [OF inv', of s k] s at k km by simp
      then show ?thesis using True vm s lv by simp
    next
      case False
      show ?thesis
      proof (cases "k' \<noteq> 0 \<and> k' \<in> set (keys m)")
        case True
        then obtain i where i: "i < length (keys m)" "keys m ! i = k'"
          by (metis in_set_conv_nth)
        then have ne: "i \<noteq> s" using at False by auto
        have "hm_lookup m' k' = Some (vals m' ! i)"
          using lookup_at [OF inv', of i k'] i km True by simp
        moreover have "hm_lookup m k' = Some (vals m ! i)"
          using lookup_at [OF inv, of i k'] i True by simp
        ultimately show ?thesis using False ne vm by simp
      next
        case False
        then have "hm_lookup m k' = None" "hm_lookup m' k' = None"
          using lookup_none [of m k'] lookup_none [of m' k'] lv km vm
          by (auto simp: hm_lookup_def)
        then show ?thesis using \<open>k' \<noteq> k\<close> by simp
      qed
    qed
  qed
qed


lemma setnum_probe_slot:
  assumes "tbl_shape m"
  shows "setnum_probe m key v i =
     (let s = unat i mod unat (cap m) in
      if keys m ! s = 0
      then Some (m\<lparr>len := len m + 1, keys := (keys m)[s := key], vals := (vals m)[s := v]\<rparr>)
      else if keys m ! s = key then Some (m\<lparr>vals := (vals m)[s := v]\<rparr>)
      else setnum_probe m key v (of_nat (s + 1)))"
proof -
  have c: "is_cap (cap m)" and lk: "length (keys m) = unat (cap m)"
    and lv: "length (vals m) = unat (cap m)"
    using assms by (simp_all add: tbl_shape_def)
  have pos: "0 < unat (cap m)" using cap_pos [OF c] by simp
  have s: "unat (i AND (cap m - 1)) = unat i mod unat (cap m)" by (rule slot32 [OF c])
  have lt: "unat i mod unat (cap m) < unat (cap m)" using pos by simp
  have "i AND (cap m - 1) = of_nat (unat i mod unat (cap m))"
    using s lt by (simp add: word_unat_eq_iff le_unat_uoi [of _ "cap m"])
  then have nxt: "(i AND (cap m - 1)) + 1 = of_nat (unat i mod unat (cap m) + 1)" by simp
  show ?thesis
    by (subst setnum_probe.simps) (simp add: Let_def s lt lk lv nxt del: of_nat_add of_nat_Suc)
qed

lemma setnum_probe_cong:
  assumes "tbl_shape m" "unat i mod unat (cap m) = unat i' mod unat (cap m)"
  shows "setnum_probe m key v i = setnum_probe m key v i'"
  using setnum_probe_slot [OF assms(1), of key v i] setnum_probe_slot [OF assms(1), of key v i']
    assms(2) by simp

lemma setnum_probe_walk:
  assumes sh: "tbl_shape m"
    and path: "\<forall>t<d. keys m ! ((h + t) mod unat (cap m)) \<noteq> key
                    \<and> keys m ! ((h + t) mod unat (cap m)) \<noteq> 0"
  shows "setnum_probe m key v (of_nat (h mod unat (cap m)))
       = setnum_probe m key v (of_nat ((h + d) mod unat (cap m)))"
proof -
  let ?c = "unat (cap m)"
  have pos: "0 < ?c" using sh cap_pos [of "cap m"] by (simp add: tbl_shape_def)
  have step: "setnum_probe m key v (of_nat s) = setnum_probe m key v (of_nat ((s + 1) mod ?c))"
    if "s < ?c" "\<not> (keys m ! s = key \<or> keys m ! s = 0)" for s
  proof -
    have "unat (of_nat s :: 32 word) mod ?c = s"
      using that(1) by (simp add: le_unat_uoi [of s "cap m"])
    then have "setnum_probe m key v (of_nat s) = setnum_probe m key v (of_nat (s + 1))"
      using setnum_probe_slot [OF sh, of key v "of_nat s"] that(2) by (simp add: Let_def)
    also have "\<dots> = setnum_probe m key v (of_nat ((s + 1) mod ?c))"
    proof (rule setnum_probe_cong [OF sh])
      have "unat (of_nat (s + 1) :: 32 word) = s + 1"
        using that(1) by (intro le_unat_uoi [of _ "cap m"]) simp
      moreover have "unat (of_nat ((s + 1) mod ?c) :: 32 word) = (s + 1) mod ?c"
        using pos by (intro le_unat_uoi [of _ "cap m"]) simp
      ultimately show "unat (of_nat (s + 1) :: 32 word) mod ?c
          = unat (of_nat ((s + 1) mod ?c) :: 32 word) mod ?c"
        by simp
    qed
    finally show ?thesis .
  qed
  show ?thesis
    using walk_steps [of ?c "\<lambda>s. keys m ! s = key \<or> keys m ! s = 0"
        "\<lambda>s. setnum_probe m key v (of_nat s)" d h] step pos path
    by blast
qed

lemma setnum_probe_start:
  assumes sh: "tbl_shape m"
  shows "setnum_probe m key v i = setnum_probe m key v (of_nat (unat i mod unat (cap m)))"
proof (rule setnum_probe_cong [OF sh])
  have pos: "0 < unat (cap m)" using sh cap_pos [of "cap m"] by (simp add: tbl_shape_def)
  have "unat (of_nat (unat i mod unat (cap m)) :: 32 word) = unat i mod unat (cap m)"
    using pos by (intro le_unat_uoi [of _ "cap m"]) simp
  then show "unat i mod unat (cap m)
      = unat (of_nat (unat i mod unat (cap m)) :: 32 word) mod unat (cap m)"
    by simp
qed

lemma setnum_probe_stop:
  assumes sh: "tbl_shape m" and s: "s < unat (cap m)"
  shows "keys m ! s = 0 \<Longrightarrow> setnum_probe m key v (of_nat s)
           = Some (m\<lparr>len := len m + 1, keys := (keys m)[s := key], vals := (vals m)[s := v]\<rparr>)"
    and "keys m ! s \<noteq> 0 \<Longrightarrow> keys m ! s = key
           \<Longrightarrow> setnum_probe m key v (of_nat s) = Some (m\<lparr>vals := (vals m)[s := v]\<rparr>)"
proof -
  have "unat (of_nat s :: 32 word) mod unat (cap m) = s"
    using s by (simp add: le_unat_uoi [of s "cap m"])
  then show "keys m ! s = 0 \<Longrightarrow> setnum_probe m key v (of_nat s)
           = Some (m\<lparr>len := len m + 1, keys := (keys m)[s := key], vals := (vals m)[s := v]\<rparr>)"
    and "keys m ! s \<noteq> 0 \<Longrightarrow> keys m ! s = key
           \<Longrightarrow> setnum_probe m key v (of_nat s) = Some (m\<lparr>vals := (vals m)[s := v]\<rparr>)"
    using setnum_probe_slot [OF sh, of key v "of_nat s"] by (simp_all add: Let_def)
qed

lemma setnum_probe_correct:
  assumes inv: "tbl_inv m" and room: "live m < length (keys m)" and k: "k \<noteq> 0"
  shows "\<exists>m'. setnum_probe m k v k = Some m' \<and> tbl_inv m'
           \<and> hm_lookup m' = (hm_lookup m)(k \<mapsto> v) \<and> cap m' = cap m
           \<and> ((k \<in> set (keys m) \<and> live m' = live m \<and> len m' = len m)
              \<or> (k \<notin> set (keys m) \<and> live m' = Suc (live m) \<and> len m' = len m + 1))"
proof -
  have sh: "tbl_shape m" using inv by (rule tbl_inv_shape)
  have lk: "length (keys m) = unat (cap m)" using inv by (simp add: tbl_inv_def)
  from probe_path [OF inv room k]
  obtain d where d: "d < unat (cap m)"
    "\<forall>t<d. keys m ! ((unat k + t) mod unat (cap m)) \<noteq> k
          \<and> keys m ! ((unat k + t) mod unat (cap m)) \<noteq> 0"
    "keys m ! ((unat k + d) mod unat (cap m)) = k
       \<or> (keys m ! ((unat k + d) mod unat (cap m)) = 0 \<and> k \<notin> set (keys m))"
    unfolding lk by blast
  let ?s = "(unat k + d) mod unat (cap m)"
  have s: "?s < unat (cap m)" using d(1) by simp
  have "setnum_probe m k v k = setnum_probe m k v (of_nat (unat k mod unat (cap m)))"
    by (rule setnum_probe_start [OF sh])
  also have "\<dots> = setnum_probe m k v (of_nat ?s)"
    by (rule setnum_probe_walk [OF sh d(2)])
  finally have eq: "setnum_probe m k v k = setnum_probe m k v (of_nat ?s)" .
  show ?thesis
  proof (cases "keys m ! ?s = k")
    case True
    let ?m' = "m\<lparr>vals := (vals m)[?s := v]\<rparr>"
    have r: "setnum_probe m k v k = Some ?m'"
      using eq setnum_probe_stop(2) [OF sh s _ True] True k by simp
    have "k \<in> set (keys m)" using True s lk by (metis nth_mem)
    moreover note update_slot [OF inv k _ True, of ?m' v] 
    ultimately show ?thesis using r s lk by simp
  next
    case False
    then have z: "keys m ! ?s = 0" and new: "k \<notin> set (keys m)" using d(3) by simp_all
    let ?m' = "m\<lparr>len := len m + 1, keys := (keys m)[?s := k], vals := (vals m)[?s := v]\<rparr>"
    have r: "setnum_probe m k v k = Some ?m'"
      using eq setnum_probe_stop(1) [OF sh s z] by simp
    have "\<forall>t<d. keys m ! ((unat k + t) mod length (keys m)) \<noteq> 0" using d(2) lk by simp
    from insert_slot [OF inv k new _ _ this, of ?m' v] d(1) z lk
    have "tbl_inv ?m'" "hm_lookup ?m' = (hm_lookup m)(k \<mapsto> v)" "live ?m' = Suc (live m)"
      by simp_all
    then show ?thesis using r new by simp
  qed
qed


lemma grow_probe_slot:
  assumes "tbl_shape m"
  shows "grow_probe m key v j =
     (let s = unat j mod unat (cap m) in
      if keys m ! s = 0
      then Some (m\<lparr>keys := (keys m)[s := key], vals := (vals m)[s := v]\<rparr>)
      else grow_probe m key v (of_nat (s + 1)))"
proof -
  have c: "is_cap (cap m)" and lk: "length (keys m) = unat (cap m)"
    and lv: "length (vals m) = unat (cap m)"
    using assms by (simp_all add: tbl_shape_def)
  have pos: "0 < unat (cap m)" using cap_pos [OF c] by simp
  have s: "unat (j AND ucast (cap m - 1)) = unat j mod unat (cap m)" by (rule slot64 [OF c])
  have lt: "unat j mod unat (cap m) < unat (cap m)" using pos by simp
  have "j AND ucast (cap m - 1) = of_nat (unat j mod unat (cap m))"
    using s lt by (simp add: word_unat_eq_iff of_nat_slot64 [of _ "cap m"])
  then have nxt: "(j AND ucast (cap m - 1)) + 1 = of_nat (unat j mod unat (cap m) + 1)" by simp
  show ?thesis
    by (subst grow_probe.simps) (simp add: Let_def s lt lk lv nxt del: of_nat_add of_nat_Suc)
qed

lemma grow_probe_cong:
  assumes "tbl_shape m" "unat j mod unat (cap m) = unat j' mod unat (cap m)"
  shows "grow_probe m key v j = grow_probe m key v j'"
  using grow_probe_slot [OF assms(1), of key v j] grow_probe_slot [OF assms(1), of key v j']
    assms(2) by simp

lemma grow_probe_walk:
  assumes sh: "tbl_shape m"
    and path: "\<forall>t<d. keys m ! ((h + t) mod unat (cap m)) \<noteq> 0"
  shows "grow_probe m key v (of_nat (h mod unat (cap m)))
       = grow_probe m key v (of_nat ((h + d) mod unat (cap m)))"
proof -
  let ?c = "unat (cap m)"
  have pos: "0 < ?c" using sh cap_pos [of "cap m"] by (simp add: tbl_shape_def)
  have step: "grow_probe m key v (of_nat s) = grow_probe m key v (of_nat ((s + 1) mod ?c))"
    if "s < ?c" "\<not> keys m ! s = 0" for s
  proof -
    have "unat (of_nat s :: 64 word) mod ?c = s"
      using that(1) by (simp add: of_nat_slot64 [of s "cap m"])
    then have "grow_probe m key v (of_nat s) = grow_probe m key v (of_nat (s + 1))"
      using grow_probe_slot [OF sh, of key v "of_nat s"] that(2) by (simp add: Let_def)
    also have "\<dots> = grow_probe m key v (of_nat ((s + 1) mod ?c))"
    proof (rule grow_probe_cong [OF sh])
      have "unat (of_nat (s + 1) :: 64 word) = s + 1"
        using that(1) by (intro of_nat_slot64 [of _ "cap m"]) simp
      moreover have "unat (of_nat ((s + 1) mod ?c) :: 64 word) = (s + 1) mod ?c"
        using pos by (intro of_nat_slot64 [of _ "cap m"]) simp
      ultimately show "unat (of_nat (s + 1) :: 64 word) mod ?c
          = unat (of_nat ((s + 1) mod ?c) :: 64 word) mod ?c"
        by simp
    qed
    finally show ?thesis .
  qed
  show ?thesis
    using walk_steps [of ?c "\<lambda>s. keys m ! s = 0"
        "\<lambda>s. grow_probe m key v (of_nat s)" d h] step pos path
    by blast
qed

lemma grow_probe_start:
  assumes sh: "tbl_shape m"
  shows "grow_probe m key v (ucast (k::uint32))
       = grow_probe m key v (of_nat (unat k mod unat (cap m)))"
proof (rule grow_probe_cong [OF sh])
  have pos: "0 < unat (cap m)" using sh cap_pos [of "cap m"] by (simp add: tbl_shape_def)
  have "unat (of_nat (unat k mod unat (cap m)) :: 64 word) = unat k mod unat (cap m)"
    using pos by (intro of_nat_slot64 [of _ "cap m"]) simp
  then show "unat (ucast k :: 64 word) mod unat (cap m)
      = unat (of_nat (unat k mod unat (cap m)) :: 64 word) mod unat (cap m)"
    by (simp add: ucast_up)
qed

lemma grow_probe_stop:
  assumes sh: "tbl_shape m" and s: "s < unat (cap m)" and z: "keys m ! s = 0"
  shows "grow_probe m key v (of_nat s)
           = Some (m\<lparr>keys := (keys m)[s := key], vals := (vals m)[s := v]\<rparr>)"
proof -
  have "unat (of_nat s :: 64 word) mod unat (cap m) = s"
    using s by (simp add: of_nat_slot64 [of s "cap m"])
  then show ?thesis
    using grow_probe_slot [OF sh, of key v "of_nat s"] z by (simp add: Let_def)
qed

lemma grow_probe_correct:
  assumes inv: "tbl_inv m" and room: "live m < length (keys m)" and k: "k \<noteq> 0"
    and new: "k \<notin> set (keys m)"
  shows "\<exists>m'. grow_probe m k v (ucast k) = Some m' \<and> tbl_inv m'
           \<and> hm_lookup m' = (hm_lookup m)(k \<mapsto> v) \<and> cap m' = cap m \<and> len m' = len m
           \<and> live m' = Suc (live m)"
proof -
  have sh: "tbl_shape m" using inv by (rule tbl_inv_shape)
  have lk: "length (keys m) = unat (cap m)" using inv by (simp add: tbl_inv_def)
  from probe_path [OF inv room k] new
  obtain d where d: "d < unat (cap m)"
    "\<forall>t<d. keys m ! ((unat k + t) mod unat (cap m)) \<noteq> 0"
    "keys m ! ((unat k + d) mod unat (cap m)) = 0"
    unfolding lk by (metis mod_less_divisor nth_mem lk gr_implies_not0 not_gr_zero)
  let ?s = "(unat k + d) mod unat (cap m)"
  have s: "?s < unat (cap m)" using d(1) by simp
  let ?m' = "m\<lparr>keys := (keys m)[?s := k], vals := (vals m)[?s := v]\<rparr>"
  have "grow_probe m k v (ucast k) = grow_probe m k v (of_nat (unat k mod unat (cap m)))"
    by (rule grow_probe_start [OF sh])
  also have "\<dots> = grow_probe m k v (of_nat ?s)"
    by (rule grow_probe_walk [OF sh d(2)])
  also have "\<dots> = Some ?m'" by (rule grow_probe_stop [OF sh s d(3)])
  finally have r: "grow_probe m k v (ucast k) = Some ?m'" .
  have "\<forall>t<d. keys m ! ((unat k + t) mod length (keys m)) \<noteq> 0" using d(2) lk by simp
  from insert_slot [OF inv k new _ _ this, of ?m' v] d(1,3) lk
  have "tbl_inv ?m'" "hm_lookup ?m' = (hm_lookup m)(k \<mapsto> v)" "live ?m' = Suc (live m)"
    by simp_all
  then show ?thesis using r by simp
qed

lemma lookup_none_iff:
  assumes "tbl_inv m" "k \<noteq> 0"
  shows "hm_lookup m k = None \<longleftrightarrow> k \<notin> set (keys m)"
proof
  assume "hm_lookup m k = None"
  show "k \<notin> set (keys m)"
  proof
    assume "k \<in> set (keys m)"
    then obtain i where "i < length (keys m)" "keys m ! i = k" by (metis in_set_conv_nth)
    then show False using lookup_at [OF assms(1), of i k] assms(2) \<open>hm_lookup m k = None\<close>
      by simp
  qed
next
  assume "k \<notin> set (keys m)"
  then show "hm_lookup m k = None"
    using lookup_none [of m k] assms(1) by (simp add: tbl_inv_def)
qed

lemma rehash_correct:
  assumes "tbl_inv m"
    and "distinct (filter (\<lambda>k. k \<noteq> 0) (map fst es))"
    and "\<forall>k\<in>set (map fst es). k \<noteq> 0 \<longrightarrow> hm_lookup m k = None"
    and "live m + length (filter (\<lambda>k. k \<noteq> 0) (map fst es)) < length (keys m)"
  shows "\<exists>m'. rehash es m = Some m' \<and> tbl_inv m' \<and> cap m' = cap m \<and> len m' = len m
           \<and> live m' = live m + length (filter (\<lambda>k. k \<noteq> 0) (map fst es))
           \<and> hm_lookup m' = (\<lambda>k. if k = 0 then None
                                   else case map_of es k of Some v \<Rightarrow> Some v
                                        | None \<Rightarrow> hm_lookup m k)"
  using assms
proof (induction es arbitrary: m)
  case Nil
  have "hm_lookup m = (\<lambda>k. if k = 0 then None
                           else case map_of [] k of Some v \<Rightarrow> Some v | None \<Rightarrow> hm_lookup m k)"
    by (auto simp: hm_lookup_def)
  then show ?case using Nil.prems(1) by simp
next
  case (Cons kv es)
  obtain k v where kv: "kv = (k, v)" by (cases kv)
  show ?case
  proof (cases "k = 0")
    case True
    from Cons.IH [of m] Cons.prems True kv
    obtain m' where m': "rehash es m = Some m'" "tbl_inv m'" "cap m' = cap m" "len m' = len m"
      "live m' = live m + length (filter (\<lambda>k. k \<noteq> 0) (map fst es))"
      "hm_lookup m' = (\<lambda>k. if k = 0 then None
                             else case map_of es k of Some v \<Rightarrow> Some v | None \<Rightarrow> hm_lookup m k)"
      by auto
    have "hm_lookup m' = (\<lambda>k'. if k' = 0 then None
                             else case map_of (kv # es) k' of Some v \<Rightarrow> Some v
                                  | None \<Rightarrow> hm_lookup m k')"
      using m'(6) True kv by auto
    then show ?thesis using m' True kv by simp
  next
    case False
    have new: "k \<notin> set (keys m)"
      using Cons.prems(1,3) False kv lookup_none_iff [of m k] by simp
    have room: "live m < length (keys m)" using Cons.prems(4) by simp
    from grow_probe_correct [OF Cons.prems(1) room False new, of v]
    obtain m1 where m1: "grow_probe m k v (ucast k) = Some m1" "tbl_inv m1"
      "hm_lookup m1 = (hm_lookup m)(k \<mapsto> v)" "cap m1 = cap m" "len m1 = len m"
      "live m1 = Suc (live m)"
      by blast
    have lk1: "length (keys m1) = length (keys m)"
      using m1(2,4) Cons.prems(1) by (simp add: tbl_inv_def)
    have knew: "k \<notin> set (map fst es)" using Cons.prems(2) False kv by simp
    have a: "distinct (filter (\<lambda>k. k \<noteq> 0) (map fst es))"
      using Cons.prems(2) by (simp split: if_splits)
    have b: "\<forall>k'\<in>set (map fst es). k' \<noteq> 0 \<longrightarrow> hm_lookup m1 k' = None"
      using Cons.prems(3) m1(3) knew by auto
    have c: "live m1 + length (filter (\<lambda>k. k \<noteq> 0) (map fst es)) < length (keys m1)"
      using Cons.prems(4) m1(6) lk1 False kv by simp
    from Cons.IH [OF m1(2) a b c]
    obtain m' where m': "rehash es m1 = Some m'" "tbl_inv m'" "cap m' = cap m1" "len m' = len m1"
      "live m' = live m1 + length (filter (\<lambda>k. k \<noteq> 0) (map fst es))"
      "hm_lookup m' = (\<lambda>k. if k = 0 then None
                             else case map_of es k of Some v \<Rightarrow> Some v | None \<Rightarrow> hm_lookup m1 k)"
      by blast
    have none: "map_of es k = None" using knew by (simp add: map_of_eq_None_iff)
    have "hm_lookup m' = (\<lambda>k'. if k' = 0 then None
                             else case map_of (kv # es) k' of Some v \<Rightarrow> Some v
                                  | None \<Rightarrow> hm_lookup m k')"
      unfolding m'(6) m1(3) using none kv by (auto split: option.splits)
    then show ?thesis using m' m1 False kv by simp
  qed
qed


lemma grow_loop_rehash:
  assumes "length ks = c" "length vs = c" "i \<le> c"
  shows "grow_loop ks vs c i m = rehash (drop i (zip ks vs)) m"
  using assms(3)
proof (induction "c - i" arbitrary: i m)
  case 0
  then have "i = c" by simp
  then show ?case using assms by (subst grow_loop.simps) simp
next
  case (Suc n)
  then have lt: "i < c" by simp
  have dr: "drop i (zip ks vs) = (ks ! i, vs ! i) # drop (Suc i) (zip ks vs)"
    using lt assms by (simp flip: Cons_nth_drop_Suc)
  have IH: "grow_loop ks vs c (Suc i) m' = rehash (drop (Suc i) (zip ks vs)) m'" for m'
    using Suc.hyps(1) [of "Suc i" m'] Suc.hyps(2) lt by simp
  show ?case
    by (subst grow_loop.simps) (simp add: lt assms dr IH split: option.splits)
qed

lemma distinct_filter_nth:
  "(\<forall>i<length xs. \<forall>j<length xs. xs ! i = xs ! j \<longrightarrow> P (xs ! i) \<longrightarrow> i = j)
   \<Longrightarrow> distinct (filter P xs)"
proof (induction xs)
  case Nil
  then show ?case by simp
next
  case (Cons x xs)
  have tl: "\<forall>i<length xs. \<forall>j<length xs. xs ! i = xs ! j \<longrightarrow> P (xs ! i) \<longrightarrow> i = j"
  proof (intro allI impI)
    fix i j
    assume "i < length xs" "j < length xs" "xs ! i = xs ! j" "P (xs ! i)"
    then show "i = j" using Cons.prems [rule_format, of "Suc i" "Suc j"] by simp
  qed
  have hd: "x \<notin> set xs" if "P x"
  proof
    assume "x \<in> set xs"
    then obtain j where "j < length xs" "xs ! j = x" by (metis in_set_conv_nth)
    then show False using Cons.prems [rule_format, of 0 "Suc j"] that by simp
  qed
  show ?case using Cons.IH [OF tl] hd by simp
qed

lemma tbl_inv_distinct: "tbl_inv m \<Longrightarrow> distinct (filter (\<lambda>k. k \<noteq> 0) (keys m))"
  by (rule distinct_filter_nth) (simp add: tbl_inv_def)

lemma empty_table:
  assumes "is_cap c"
    and "keys m' = replicate (unat c) 0" "length (vals m') = unat c" "cap m' = c"
  shows "tbl_inv m'" and "live m' = 0" and "hm_lookup m' k = None"
proof -
  show "tbl_inv m'" using assms by (simp add: tbl_inv_def)
  show "live m' = 0" using assms by (simp add: live_def)
  have "k = 0 \<or> k \<notin> set (keys m')" using assms(2) by auto
  then show "hm_lookup m' k = None"
    using lookup_none [of m' k] assms by (auto simp: hm_lookup_def)
qed

lemma is_cap_16: "is_cap 16"
proof -
  have "(16::uint32) = 2 ^ 4" by simp
  then show ?thesis unfolding is_cap_def by (intro exI [of _ 4]) simp
qed

lemma is_cap_double:
  assumes "is_cap c" "unat c \<le> 2 ^ 30"
  shows "is_cap (2 * c)" and "unat (2 * c) = 2 * unat c" and "\<not> 2 * c < 16"
proof -
  obtain n where n: "4 \<le> n" "n \<le> 31" "c = 2 ^ n" "unat c = 2 ^ n"
    using is_capD [OF assms(1)] by blast
  have "n \<le> 30"
  proof (rule ccontr)
    assume "\<not> n \<le> 30"
    then have "(2::nat) ^ 31 \<le> 2 ^ n" by (intro power_increasing) simp_all
    then show False using assms(2) n(4) by simp
  qed
  then have n1: "Suc n \<le> 31" by simp
  have eq: "2 * c = 2 ^ Suc n" using n(3) by simp
  show "is_cap (2 * c)" unfolding is_cap_def eq using n(1) n1 by (metis le_SucI)
  show u: "unat (2 * c) = 2 * unat c" unfolding eq using unat_2p32 [OF n1] n(4) by simp
  have "16 \<le> unat c" using cap_pos [OF assms(1)] .
  then show "\<not> 2 * c < 16" using u by (simp add: word_less_nat_alt)
qed

lemma grow_correct:
  assumes hm: "hm_inv m" and small: "unat (cap m) \<le> 2 ^ 30"
  shows "\<exists>m'. ex_hashmap32__grow m (2 * cap m) = Some m' \<and> tbl_inv m'
           \<and> hm_lookup m' = hm_lookup m \<and> live m' = live m \<and> len m' = len m
           \<and> unat (cap m') = max 16 (2 * unat (cap m))"
proof -
  define c where "c = (if 2 * cap m < 16 then 16 else 2 * cap m)"
  define m0 where "m0 = m\<lparr>cap := c, keys := replicate (unat c) 0, vals := replicate (unat c) 0\<rparr>"
  have g: "ex_hashmap32__grow m (2 * cap m)
      = grow_loop (keys m) (vals m) (unat (cap m)) 0 m0"
    by (simp add: ex_hashmap32__grow_def Let_def c_def m0_def)
  have lens: "length (keys m) = unat (cap m)" "length (vals m) = unat (cap m)"
    using hm by (auto simp: hm_inv_def tbl_inv_def)
  have r: "ex_hashmap32__grow m (2 * cap m) = rehash (zip (keys m) (vals m)) m0"
    unfolding g using grow_loop_rehash [OF lens, of 0 m0] by simp
  have c: "is_cap c \<and> unat c = max 16 (2 * unat (cap m)) \<and> 2 * live m < unat c"
  proof (cases "cap m = 0")
    case True
    then have "live m = 0" using hm cap_pos [of "cap m"] by (auto simp: hm_inv_def tbl_inv_def live_def)
    then show ?thesis using True is_cap_16 by (simp add: c_def)
  next
    case False
    then have inv: "tbl_inv m" and half: "2 * live m \<le> unat (cap m)"
      using hm by (auto simp: hm_inv_def)
    then have ic: "is_cap (cap m)" by (simp add: tbl_inv_def)
    from is_cap_double [OF ic small] cap_pos [OF ic] half
    show ?thesis by (simp add: c_def)
  qed
  have inv0: "tbl_inv m0" and live0: "live m0 = 0" and look0: "hm_lookup m0 k = None" for k
    using empty_table [of c m0] c by (simp_all add: m0_def)
  have 1: "distinct (filter (\<lambda>k. k \<noteq> 0) (map fst (zip (keys m) (vals m))))"
  proof (cases "cap m = 0")
    case True
    then show ?thesis using lens by simp
  next
    case False
    then have "tbl_inv m" using hm by (auto simp: hm_inv_def)
    then show ?thesis using tbl_inv_distinct [of m] lens by simp
  qed
  have 2: "\<forall>k\<in>set (map fst (zip (keys m) (vals m))). k \<noteq> 0 \<longrightarrow> hm_lookup m0 k = None"
    using look0 by simp
  have 3: "live m0 + length (filter (\<lambda>k. k \<noteq> 0) (map fst (zip (keys m) (vals m))))
      < length (keys m0)"
    using c live0 lens by (simp add: m0_def live_def)
  from rehash_correct [OF inv0 1 2 3]
  obtain m' where m': "rehash (zip (keys m) (vals m)) m0 = Some m'" "tbl_inv m'"
    "cap m' = cap m0" "len m' = len m0"
    "live m' = live m0 + length (filter (\<lambda>k. k \<noteq> 0) (map fst (zip (keys m) (vals m))))"
    "hm_lookup m' = (\<lambda>k. if k = 0 then None
                           else case map_of (zip (keys m) (vals m)) k of Some v \<Rightarrow> Some v
                                | None \<Rightarrow> hm_lookup m0 k)"
    by blast
  have "hm_lookup m' k = hm_lookup m k" for k
    unfolding m'(6)
    by (cases "map_of (zip (keys m) (vals m)) k") (simp_all add: look0 hm_lookup_def [of m])
  then have "hm_lookup m' = hm_lookup m" by (simp add: fun_eq_iff)
  moreover have "live m' = live m" using m'(5) live0 lens by (simp add: live_def)
  moreover have "unat (cap m') = max 16 (2 * unat (cap m))" using m'(3) c by (simp add: m0_def)
  moreover have "len m' = len m" using m'(4) by (simp add: m0_def)
  ultimately show ?thesis using r m'(1,2) by simp
qed


lemma is_cap_even: "is_cap c \<Longrightarrow> even (unat c)"
proof -
  assume "is_cap c"
  then obtain n where n: "4 \<le> n" "unat c = 2 ^ n" using is_capD by blast
  then show ?thesis by simp
qed

lemma unat_double: "unat (x::uint32) < 2 ^ 30 \<Longrightarrow> unat (2 * x) = 2 * unat x"
  by (simp add: unat_word_ariths)

lemma unat_succ: "unat (x::uint32) < 2 ^ 30 \<Longrightarrow> unat (x + 1) = unat x + 1"
  by (simp add: unat_word_ariths)

lemma setnum_correct:
  assumes hm: "hm_inv m" and k: "k \<noteq> 0" and small: "unat (len m) < 2 ^ 30"
  shows "\<exists>m'. ex_hashmap32_setnum m k v = Some m' \<and> hm_inv m'
           \<and> hm_lookup m' = (hm_lookup m)(k \<mapsto> v) \<and> unat (len m') \<le> unat (len m) + 1"
proof -
  have len_live: "unat (len m) = live m" using hm by (auto simp: hm_inv_def live_def)
  have half: "2 * live m \<le> unat (cap m)" using hm by (auto simp: hm_inv_def live_def)
  have cond: "cap m \<le> 2 * len m \<longleftrightarrow> unat (cap m) \<le> 2 * live m"
    using unat_double [OF small] len_live by (simp add: word_le_nat_alt)
  have "\<exists>m1. (if cap m \<le> 2 * len m then ex_hashmap32__grow m (2 * cap m) else Some m) = Some m1
          \<and> tbl_inv m1 \<and> hm_lookup m1 = hm_lookup m \<and> live m1 = live m \<and> len m1 = len m
          \<and> 2 * live m + 2 \<le> unat (cap m1)"
  proof (cases "cap m \<le> 2 * len m")
    case True
    then have eq: "unat (cap m) = 2 * live m" using cond half by simp
    then have "unat (cap m) < 2 ^ 31" using small len_live by simp
    have cs: "unat (cap m) \<le> 2 ^ 30"
    proof (cases "cap m = 0")
      case True
      then show ?thesis by simp
    next
      case False
      then have "is_cap (cap m)" using hm by (auto simp: hm_inv_def tbl_inv_def)
      then obtain n where n: "n \<le> 31" "unat (cap m) = 2 ^ n" using is_capD by blast
      have "n \<le> 30"
      proof (rule ccontr)
        assume "\<not> n \<le> 30"
        then have "(2::nat) ^ 31 \<le> 2 ^ n" by (intro power_increasing) simp_all
        then show False using \<open>unat (cap m) < 2 ^ 31\<close> n(2) by simp
      qed
      then have "(2::nat) ^ n \<le> 2 ^ 30" by (intro power_increasing) simp_all
      then show ?thesis using n(2) by simp
    qed
    from grow_correct [OF hm cs]
    obtain m1 where m1: "ex_hashmap32__grow m (2 * cap m) = Some m1" "tbl_inv m1"
      "hm_lookup m1 = hm_lookup m" "live m1 = live m" "len m1 = len m"
      "unat (cap m1) = max 16 (2 * unat (cap m))"
      by blast
    have "2 * live m + 2 \<le> unat (cap m1)" using m1(6) eq by (simp add: max_def)
    then show ?thesis using True m1 by simp
  next
    case False
    then have lt: "2 * live m < unat (cap m)" using cond by simp
    then have "cap m \<noteq> 0" by auto
    then have inv: "tbl_inv m" using hm by (auto simp: hm_inv_def)
    then have "even (unat (cap m))" using is_cap_even by (simp add: tbl_inv_def)
    then have "2 * live m + 2 \<le> unat (cap m)" using lt by presburger
    then show ?thesis using False inv by simp
  qed
  then obtain m1 where m1:
    "(if cap m \<le> 2 * len m then ex_hashmap32__grow m (2 * cap m) else Some m) = Some m1"
    "tbl_inv m1" "hm_lookup m1 = hm_lookup m" "live m1 = live m" "len m1 = len m"
    "2 * live m + 2 \<le> unat (cap m1)"
    by blast
  have lk1: "length (keys m1) = unat (cap m1)" using m1(2) by (simp add: tbl_inv_def)
  have room: "live m1 < length (keys m1)" using m1(4,6) lk1 by simp
  from setnum_probe_correct [OF m1(2) room k, of v]
  obtain m' where m': "setnum_probe m1 k v k = Some m'" "tbl_inv m'"
    "hm_lookup m' = (hm_lookup m1)(k \<mapsto> v)" "cap m' = cap m1"
    "(k \<in> set (keys m1) \<and> live m' = live m1 \<and> len m' = len m1)
      \<or> (k \<notin> set (keys m1) \<and> live m' = Suc (live m1) \<and> len m' = len m1 + 1)"
    by blast
  have r: "ex_hashmap32_setnum m k v = Some m'"
    using k m1(1) m'(1) by (simp add: ex_hashmap32_setnum_def)
  have ll: "unat (len m') = live m' \<and> live m' \<le> live m + 1"
    using m'(5) m1(4,5) len_live unat_succ [OF small] by auto
  then have "hm_inv m'" using m'(2,4) m1(6) by (simp add: hm_inv_def)
  then show ?thesis using r m'(3) m1(3) ll len_live by simp
qed

lemma hm_inv_zero: "hm_inv ex_hashmap32_zero"
  by (simp add: hm_inv_def ex_hashmap32_zero_def)

lemma hm_lookup_zero: "hm_lookup ex_hashmap32_zero = Map.empty"
  by (simp add: hm_lookup_def ex_hashmap32_zero_def fun_eq_iff)

lemma setnum_all_correct:
  assumes "hm_inv m" "\<forall>(k, v)\<in>set ops. k \<noteq> 0" "unat (len m) + length ops \<le> 2 ^ 30"
  shows "\<exists>m'. setnum_all m ops = Some m' \<and> hm_inv m'
           \<and> hm_lookup m' = hm_lookup m ++ map_of (rev ops)
           \<and> unat (len m') \<le> unat (len m) + length ops"
  using assms
proof (induction ops arbitrary: m)
  case Nil
  then show ?case by simp
next
  case (Cons kv ops)
  obtain k v where kv: "kv = (k, v)" by (cases kv)
  have k: "k \<noteq> 0" using Cons.prems(2) kv by simp
  have small: "unat (len m) < 2 ^ 30" using Cons.prems(3) by simp
  from setnum_correct [OF Cons.prems(1) k small, of v]
  obtain m1 where m1: "ex_hashmap32_setnum m k v = Some m1" "hm_inv m1"
    "hm_lookup m1 = (hm_lookup m)(k \<mapsto> v)" "unat (len m1) \<le> unat (len m) + 1"
    by blast
  have a: "\<forall>(k, v)\<in>set ops. k \<noteq> 0" using Cons.prems(2) by simp
  have b: "unat (len m1) + length ops \<le> 2 ^ 30" using Cons.prems(3) m1(4) by simp
  from Cons.IH [OF m1(2) a b]
  obtain m' where m': "setnum_all m1 ops = Some m'" "hm_inv m'"
    "hm_lookup m' = hm_lookup m1 ++ map_of (rev ops)"
    "unat (len m') \<le> unat (len m1) + length ops"
    by blast
  have "hm_lookup m' = hm_lookup m ++ map_of (rev (kv # ops))"
    unfolding m'(3) m1(3) kv by (simp add: map_add_upd_left fun_eq_iff map_add_def split: option.splits)
  then show ?case using m' m1 kv by simp
qed

text \<open>
  The capacity is a 32-bit number. A map that holds \<open>2 ^ 30\<close> keys has capacity
  \<open>2 ^ 31\<close>; the next call of \<^verbatim>\<open>ex_hashmap32_setnum\<close> grows it to
  \<^verbatim>\<open>2 * map->cap\<close>, which is 0 in 32 bits and becomes 16, and the loop that moves the
  old keys into the 16 slots never finds a free slot for the 17th.
\<close>

lemma grow_probe_some:
  assumes "grow_probe m key val j = Some y"
  shows "(\<exists>s<length (keys m). keys m ! s = 0)
     \<and> (key \<noteq> 0 \<longrightarrow> length (keys y) = length (keys m) \<and> live y = Suc (live m))"
proof (rule grow_probe.raw_induct [where P = "\<lambda>m key val j y.
          (\<exists>s<length (keys m). keys m ! s = 0)
          \<and> (key \<noteq> 0 \<longrightarrow> length (keys y) = length (keys m) \<and> live y = Suc (live m))",
        OF _ assms])
  fix gp :: "'a ex_hashmap32 \<Rightarrow> uint32 \<Rightarrow> 'a \<Rightarrow> size_t \<Rightarrow> 'a ex_hashmap32 option"
    and m key val j y
  assume IH: "\<And>m key val j y. gp m key val j = Some y \<Longrightarrow>
          (\<exists>s<length (keys m). keys m ! s = 0)
          \<and> (key \<noteq> 0 \<longrightarrow> length (keys y) = length (keys m) \<and> live y = Suc (live m))"
    and eq: "(let j' = j AND ucast (cap m - 1) in
      if unat j' < length (keys m) then
        if keys m ! unat j' = 0 then
          if unat j' < length (vals m)
          then Some (m\<lparr>keys := (keys m)[unat j' := key], vals := (vals m)[unat j' := val]\<rparr>)
          else None
        else gp m key val (j' + 1)
      else None) = Some y"
  let ?s = "unat (j AND ucast (cap m - 1))"
  show "(\<exists>s<length (keys m). keys m ! s = 0)
     \<and> (key \<noteq> 0 \<longrightarrow> length (keys y) = length (keys m) \<and> live y = Suc (live m))"
  proof (cases "?s < length (keys m) \<and> keys m ! ?s = 0")
    case True
    then have y: "y = m\<lparr>keys := (keys m)[?s := key], vals := (vals m)[?s := val]\<rparr>"
      using eq by (simp add: Let_def split: if_splits)
    have "key \<noteq> 0 \<longrightarrow> live y = Suc (live m)"
      unfolding live_def y using filter_update_count [of ?s "keys m" "\<lambda>k. k \<noteq> 0" key] True
      by simp
    then show ?thesis using True y by auto
  next
    case False
    then have r: "gp m key val ((j AND ucast (cap m - 1)) + 1) = Some y"
      using eq by (auto simp: Let_def split: if_splits)
    show ?thesis using IH [OF r] .
  qed
qed

lemma live_le: "live m \<le> length (keys m)"
  by (simp add: live_def)

lemma live_lt:
  assumes "s < length (keys m)" "keys m ! s = 0"
  shows "live m < length (keys m)"
proof -
  have "keys m ! s \<in> set (keys m)" using assms(1) by (rule nth_mem)
  then have "0 \<in> set (keys m)" using assms(2) by simp
  then show ?thesis unfolding live_def by (intro length_filter_less [of 0]) simp_all
qed

lemma rehash_overfull:
  "length (keys m) - live m < length (filter (\<lambda>k. k \<noteq> 0) (map fst es)) \<Longrightarrow> rehash es m = None"
proof (induction es arbitrary: m)
  case Nil
  then show ?case by simp
next
  case (Cons kv es)
  obtain k v where kv: "kv = (k, v)" by (cases kv)
  show ?case
  proof (cases "k = 0")
    case True
    then show ?thesis using Cons kv by simp
  next
    case False
    show ?thesis
    proof (cases "grow_probe m k v (ucast k)")
      case None
      then show ?thesis using False kv by simp
    next
      case (Some y)
      from grow_probe_some [OF Some] False
      obtain s where s: "s < length (keys m)" "keys m ! s = 0"
        and y: "length (keys y) = length (keys m)" "live y = Suc (live m)"
        by blast
      have "live m < length (keys m)" using live_lt [OF s] .
      then have "length (keys y) - live y < length (filter (\<lambda>k. k \<noteq> 0) (map fst es))"
        using Cons.prems y False kv by simp
      then have "rehash es y = None" by (rule Cons.IH)
      then show ?thesis using Some False kv by simp
    qed
  qed
qed

lemma live_card:
  assumes "tbl_inv m"
  shows "live m = card (dom (hm_lookup m))"
proof -
  have "dom (hm_lookup m) = set (filter (\<lambda>k. k \<noteq> 0) (keys m))"
  proof (rule set_eqI)
    fix k
    show "k \<in> dom (hm_lookup m) \<longleftrightarrow> k \<in> set (filter (\<lambda>k. k \<noteq> 0) (keys m))"
    proof (cases "k = 0")
      case True
      then show ?thesis by (simp add: hm_lookup_def dom_def)
    next
      case False
      then show ?thesis using lookup_none_iff [OF assms False] by (auto simp: dom_def)
    qed
  qed
  then show ?thesis
    using distinct_card [OF tbl_inv_distinct [OF assms]] by (simp only: live_def)
qed

lemma setnum_all_append:
  "setnum_all m (xs @ ys) = (case setnum_all m xs of None \<Rightarrow> None | Some m' \<Rightarrow> setnum_all m' ys)"
  by (induction xs arbitrary: m) (auto split: option.splits)

lemma setnum_overflow:
  fixes m :: "'v::zero ex_hashmap32"
  assumes hm: "hm_inv m" and full: "live m = 2 ^ 30" and k: "k \<noteq> 0"
  shows "ex_hashmap32_setnum m k v = None"
proof -
  have ne: "keys m \<noteq> []" using full by (auto simp: live_def)
  then have inv: "tbl_inv m" and ln: "unat (len m) = live m" and half: "2 * live m \<le> unat (cap m)"
    using hm by (auto simp: hm_inv_def)
  have ic: "is_cap (cap m)" and lk: "length (keys m) = unat (cap m)"
    and lv: "length (vals m) = unat (cap m)"
    using inv by (simp_all add: tbl_inv_def)
  have "unat (cap m) = 2 ^ 31" using cap_le [OF ic] half full by simp
  then have "unat (cap m) = unat ((2::uint32) ^ 31)" by (simp add: unat_2p32)
  then have cap: "cap m = 2 ^ 31" by (simp only: word_unat_eq_iff)
  have "unat (len m) = unat ((2::uint32) ^ 30)" using ln full by (simp add: unat_2p32)
  then have len: "len m = 2 ^ 30" by (simp only: word_unat_eq_iff)
  define m0 where "m0 = m\<lparr>cap := 16, keys := replicate 16 0, vals := replicate 16 (0::'v)\<rparr>"
  have g: "ex_hashmap32__grow m 0 = grow_loop (keys m) (vals m) (unat (cap m)) 0 m0"
    by (simp add: ex_hashmap32__grow_def Let_def m0_def)
  have "ex_hashmap32__grow m 0 = rehash (zip (keys m) (vals m)) m0"
    unfolding g using grow_loop_rehash [OF lk lv, of 0 m0] by simp
  moreover have "rehash (zip (keys m) (vals m)) m0 = None"
  proof (rule rehash_overfull)
    have "live m0 = 0" by (simp add: live_def m0_def)
    moreover have "length (keys m0) = 16" by (simp add: m0_def)
    moreover have "length (filter (\<lambda>k. k \<noteq> 0) (map fst (zip (keys m) (vals m)))) = live m"
      using lk lv by (simp add: live_def)
    ultimately show "length (keys m0) - live m0
        < length (filter (\<lambda>k. k \<noteq> 0) (map fst (zip (keys m) (vals m))))"
      using full by simp
  qed
  ultimately have "ex_hashmap32__grow m 0 = None" by simp
  moreover have "2 * cap m = 0" unfolding cap by simp
  moreover have "cap m \<le> 2 * len m" unfolding cap len by simp
  ultimately show ?thesis using k by (simp add: ex_hashmap32_setnum_def)
qed


lemma distinct_keys_live:
  fixes ops :: "(uint32 \<times> 'v::zero) list"
  assumes "\<forall>(k, v)\<in>set ops. k \<noteq> 0" and "length ops \<le> 2 ^ 30"
    and "distinct (map fst ops)" and "ops \<noteq> []"
  shows "\<exists>m. setnum_all ex_hashmap32_zero ops = Some m \<and> hm_inv m \<and> live m = length ops"
proof -
  have "unat (len (ex_hashmap32_zero :: 'v ex_hashmap32)) + length ops \<le> 2 ^ 30"
    using assms(2) by (simp add: ex_hashmap32_zero_def)
  from setnum_all_correct [OF hm_inv_zero assms(1) this]
  obtain m where m: "setnum_all ex_hashmap32_zero ops = Some m" "hm_inv m"
    "hm_lookup m = hm_lookup ex_hashmap32_zero ++ map_of (rev ops)"
    by blast
  have look: "hm_lookup m = map_of (rev ops)" using m(3) by (simp add: hm_lookup_zero)
  have dom: "dom (hm_lookup m) = set (map fst ops)"
    unfolding look by (simp add: dom_map_of_conv_image_fst)
  have "keys m \<noteq> []"
  proof
    assume "keys m = []"
    then have "hm_lookup m = Map.empty" by (simp add: hm_lookup_def fun_eq_iff)
    then show False using dom assms(4) by simp
  qed
  then have "tbl_inv m" using m(2) by (auto simp: hm_inv_def)
  then have "live m = card (set (map fst ops))" using live_card dom by metis
  also have "\<dots> = length ops" using distinct_card [OF assms(3)] by simp
  finally show ?thesis using m(1,2) by blast
qed

lemma unat_of_nat_small: "i < 2 ^ 32 \<Longrightarrow> unat (of_nat i :: uint32) = i"
  by (simp add: unat_of_nat)

lemma overflow_general:
  assumes N: "N = 2 ^ 30"
  shows "setnum_all (ex_hashmap32_zero :: nat ex_hashmap32)
           (map (\<lambda>i. (of_nat i, 1)) [1..<N + 2]) = None"
proof -
  define ops :: "(uint32 \<times> nat) list" where "ops = map (\<lambda>i. (of_nat i, 1)) [1..<N + 1]"
  have small: "i < 2 ^ 32" if "i \<le> N + 1" for i :: nat
    using that N by simp
  have nz: "of_nat i \<noteq> (0::uint32)" if "1 \<le> i" "i \<le> N + 1" for i
  proof
    assume "of_nat i = (0::uint32)"
    then have "unat (of_nat i :: uint32) = 0" by simp
    then show False using unat_of_nat_small [OF small [OF that(2)]] that(1) by simp
  qed
  have inj: "inj_on (of_nat :: nat \<Rightarrow> uint32) (set [1..<N + 1])"
  proof (rule inj_onI)
    fix i j
    assume "i \<in> set [1..<N + 1]" "j \<in> set [1..<N + 1]"
      and eq: "(of_nat i :: uint32) = of_nat j"
    then have "i \<le> N + 1" "j \<le> N + 1" by auto
    then have "unat (of_nat i :: uint32) = i" "unat (of_nat j :: uint32) = j"
      using unat_of_nat_small small by blast+
    then show "i = j" using eq by metis
  qed
  have 1: "\<forall>(k, v)\<in>set ops. k \<noteq> 0" unfolding ops_def using nz by auto
  have 2: "length ops \<le> 2 ^ 30" unfolding ops_def using N by simp
  have "map fst ops = map of_nat [1..<N + 1]" unfolding ops_def by (simp add: comp_def)
  then have 3: "distinct (map fst ops)" using inj by (simp add: distinct_map)
  have 4: "ops \<noteq> []" unfolding ops_def using N by simp
  from distinct_keys_live [OF 1 2 3 4]
  obtain m where m: "setnum_all ex_hashmap32_zero ops = Some m" "hm_inv m" "live m = length ops"
    by blast
  have full: "live m = 2 ^ 30" using m(3) N by (simp add: ops_def)
  have last: "ex_hashmap32_setnum m (of_nat (N + 1)) 1 = None"
    by (rule setnum_overflow [OF m(2) full nz]) simp_all
  have "[1..<N + 2] = [1..<N + 1] @ [N + 1]"
    using upt_Suc_append [of 1 "N + 1"] by simp
  then have "map (\<lambda>i. (of_nat i, 1)) [1..<N + 2] = ops @ [(of_nat (N + 1), 1::nat)]"
    unfolding ops_def by simp
  then show ?thesis using m(1) last by (simp add: setnum_all_append)
qed


text \<open>
  \<^verbatim>\<open>len\<close> counts the keys held, at most \<open>2 ^ 30\<close> of them, and goes up only when a call
  sets a new key: what matters for a sequence of calls is the number of different keys
  set before each call, not the number of calls.
\<close>

lemma hm_inv_len: 
  assumes "hm_inv m"
  shows "unat (len m) \<le> 2 ^ 30 \<and> unat (len m) = live m"
proof (cases "tbl_inv m \<and> unat (len m) = live m \<and> 2 * live m \<le> unat (cap m)")
  case True
  then have "is_cap (cap m)" by (simp add: tbl_inv_def)
  then have "unat (cap m) \<le> 2 ^ 31" by (rule cap_le)
  then show ?thesis using True by simp
next
  case False
  then have "len m = 0 \<and> keys m = []" using assms by (auto simp: hm_inv_def)
  then show ?thesis by (simp add: live_def)
qed

lemma setnum_returns:
  fixes m :: "'v::zero ex_hashmap32"
  assumes hm: "hm_inv m" and k: "k \<noteq> 0" and r: "ex_hashmap32_setnum m k v = Some m'"
  shows "hm_inv m' \<and> hm_lookup m' = (hm_lookup m)(k \<mapsto> v)"
proof (cases "unat (len m) < 2 ^ 30")
  case True
  then show ?thesis using setnum_correct [OF hm k True, of v] r by auto
next
  case False
  then have full: "unat (len m) = 2 ^ 30" using hm_inv_len [OF hm] by simp
  then have "live m = 2 ^ 30" using hm_inv_len [OF hm] by simp
  then show ?thesis using setnum_overflow [OF hm _ k, of v] r by simp
qed

lemma hm_card:
  assumes "hm_inv m"
  shows "finite (dom (hm_lookup m))" and "card (dom (hm_lookup m)) = unat (len m)"
proof -
  have sub: "dom (hm_lookup m) \<subseteq> set (keys m)"
    by (auto simp: hm_lookup_def dom_def split: if_splits dest: map_of_SomeD set_zip_leftD)
  then show "finite (dom (hm_lookup m))" by (rule finite_subset) simp
  show "card (dom (hm_lookup m)) = unat (len m)"
  proof (cases "keys m = []")
    case True
    then have "dom (hm_lookup m) = {}" using sub by simp
    moreover have "live m = 0" using True by (simp add: live_def)
    ultimately show ?thesis using hm_inv_len [OF assms] by simp
  next
    case False
    then have "tbl_inv m" using assms by (auto simp: hm_inv_def)
    then show ?thesis using live_card [of m] hm_inv_len [OF assms] by simp
  qed
qed

lemma setnum_all_held:
  fixes m :: "'v::zero ex_hashmap32"
  assumes "hm_inv m" "\<forall>(k, v)\<in>set ops. k \<noteq> 0"
    and "card (dom (hm_lookup m) \<union> fst ` set (butlast ops)) < 2 ^ 30"
  shows "\<exists>m'. setnum_all m ops = Some m' \<and> hm_inv m'
           \<and> hm_lookup m' = hm_lookup m ++ map_of (rev ops)"
  using assms
proof (induction ops arbitrary: m)
  case Nil
  then show ?case by simp
next
  case (Cons kv ops)
  obtain k v where kv: "kv = (k, v)" by (cases kv)
  have k: "k \<noteq> 0" using Cons.prems(2) kv by simp
  let ?X = "fst ` set (butlast (kv # ops))"
  have "card (dom (hm_lookup m)) \<le> card (dom (hm_lookup m) \<union> ?X)"
    using hm_card(1) [OF Cons.prems(1)] by (intro card_mono) simp_all
  then have small: "unat (len m) < 2 ^ 30"
    using Cons.prems(3) hm_card(2) [OF Cons.prems(1)] by simp
  from setnum_correct [OF Cons.prems(1) k small, of v]
  obtain m1 where m1: "ex_hashmap32_setnum m k v = Some m1" "hm_inv m1"
    "hm_lookup m1 = (hm_lookup m)(k \<mapsto> v)"
    by blast
  show ?case
  proof (cases "ops = []")
    case True
    then show ?thesis using m1 kv by (simp add: map_add_def fun_eq_iff)
  next
    case False
    have a: "\<forall>(k, v)\<in>set ops. k \<noteq> 0" using Cons.prems(2) by simp
    have "dom (hm_lookup m1) \<union> fst ` set (butlast ops) = dom (hm_lookup m) \<union> ?X"
      using False kv m1(3) by auto
    then have b: "card (dom (hm_lookup m1) \<union> fst ` set (butlast ops)) < 2 ^ 30"
      using Cons.prems(3) by simp
    from Cons.IH [OF m1(2) a b]
    obtain m' where m': "setnum_all m1 ops = Some m'" "hm_inv m'"
      "hm_lookup m' = hm_lookup m1 ++ map_of (rev ops)"
      by blast
    have "hm_lookup m' = hm_lookup m ++ map_of (rev (kv # ops))"
      unfolding m'(3) m1(3) kv
      by (simp add: map_add_upd_left fun_eq_iff map_add_def split: option.splits)
    then show ?thesis using m' m1 kv by simp
  qed
qed

lemma setnum_all_full:
  fixes m :: "'v::zero ex_hashmap32"
  assumes "hm_inv m" "\<forall>(k, v)\<in>set ops. k \<noteq> 0"
    and "\<not> card (dom (hm_lookup m) \<union> fst ` set (butlast ops)) < 2 ^ 30"
    and "ops \<noteq> []"
  shows "setnum_all m ops = None"
  using assms
proof (induction ops arbitrary: m)
  case Nil
  then show ?case by simp
next
  case (Cons kv ops)
  obtain k v where kv: "kv = (k, v)" by (cases kv)
  have k: "k \<noteq> 0" using Cons.prems(2) kv by simp
  let ?X = "fst ` set (butlast (kv # ops))"
  show ?case
  proof (cases "unat (len m) < 2 ^ 30")
    case False
    then have "live m = 2 ^ 30" using hm_inv_len [OF Cons.prems(1)] by simp
    then show ?thesis using setnum_overflow [OF Cons.prems(1) _ k, of v] kv by simp
  next
    case True
    from setnum_correct [OF Cons.prems(1) k True, of v]
    obtain m1 where m1: "ex_hashmap32_setnum m k v = Some m1" "hm_inv m1"
      "hm_lookup m1 = (hm_lookup m)(k \<mapsto> v)"
      by blast
    have ne: "ops \<noteq> []"
    proof
      assume "ops = []"
      then have "card (dom (hm_lookup m) \<union> ?X) = unat (len m)"
        using hm_card(2) [OF Cons.prems(1)] by simp
      then show False using Cons.prems(3) True by simp
    qed
    have a: "\<forall>(k, v)\<in>set ops. k \<noteq> 0" using Cons.prems(2) by simp
    have "dom (hm_lookup m1) \<union> fst ` set (butlast ops) = dom (hm_lookup m) \<union> ?X"
      using ne kv m1(3) by auto
    then have b: "\<not> card (dom (hm_lookup m1) \<union> fst ` set (butlast ops)) < 2 ^ 30"
      using Cons.prems(3) by simp
    have "setnum_all m1 ops = None" by (rule Cons.IH [OF m1(2) a b ne])
    then show ?thesis using m1(1) kv by simp
  qed
qed


text \<open>
  C7, as stated for any sequence: the calls that set the keys \<open>1, 2, \<dots>, 2 ^ 30 + 1\<close>,
  in this order, do not all return.
\<close>

theorem setnum_all_overflow:
  "setnum_all (ex_hashmap32_zero :: nat ex_hashmap32)
     (map (\<lambda>i. (of_nat i, 1)) [1..<2 ^ 30 + 2]) = None"
  by (rule overflow_general [OF refl])

text \<open>
  C7, with the bound that the capacity sets: starting from the zeroed map, take a
  sequence of \<^verbatim>\<open>ex_hashmap32_setnum\<close> calls with keys other than 0. If the calls before
  the last one set fewer than \<open>2 ^ 30\<close> different keys, so that every call finds fewer than
  \<open>2 ^ 30\<close> keys in the map, all calls return, and then \<^verbatim>\<open>ex_hashmap32_getnum\<close> returns
  for every key the value of the last call that set it, and 0 for the key 0 and for the
  keys never set, whatever the number of calls and of rehashes in between. If not, a call
  finds \<open>2 ^ 30\<close> keys in the map, and the calls do not all return.
\<close>

theorem getnum_after_setnum_all:
  fixes ops :: "(uint32 \<times> 'a::zero) list"
  assumes "\<forall>(k, v)\<in>set ops. k \<noteq> 0"
  shows "if card (fst ` set (butlast ops)) < 2 ^ 30
         then \<exists>m. setnum_all ex_hashmap32_zero ops = Some m
                \<and> (\<forall>k. ex_hashmap32_getnum m k
                          = Some (case map_of (rev ops) k of None \<Rightarrow> 0 | Some v \<Rightarrow> v))
         else setnum_all (ex_hashmap32_zero :: 'a ex_hashmap32) ops = None"
proof (cases "card (fst ` set (butlast ops)) < 2 ^ 30")
  case True
  then have "card (dom (hm_lookup (ex_hashmap32_zero :: 'a ex_hashmap32))
                   \<union> fst ` set (butlast ops)) < 2 ^ 30"
    by (simp add: hm_lookup_zero)
  from setnum_all_held [OF hm_inv_zero assms this]
  obtain m where m: "setnum_all ex_hashmap32_zero ops = Some m" "hm_inv m"
    "hm_lookup m = hm_lookup ex_hashmap32_zero ++ map_of (rev ops)"
    by blast
  have "hm_lookup m = map_of (rev ops)" using m(3) by (simp add: hm_lookup_zero)
  then show ?thesis using True m(1) getnum_correct [OF m(2)] by simp
next
  case False
  then have ne: "ops \<noteq> []" by auto
  have "\<not> card (dom (hm_lookup (ex_hashmap32_zero :: 'a ex_hashmap32))
                   \<union> fst ` set (butlast ops)) < 2 ^ 30"
    using False by (simp add: hm_lookup_zero)
  then have "setnum_all (ex_hashmap32_zero :: 'a ex_hashmap32) ops = None"
    by (rule setnum_all_full [OF hm_inv_zero assms _ ne])
  then show ?thesis using False by simp
qed

theorem getnum_after_setnum_all_witness:
  "card (fst ` set (butlast [(1::uint32, 5::nat), (17, 6), (33, 7), (2, 1), (3, 2), (4, 3),
                             (5, 4), (6, 8), (7, 10), (1, 9), (17, 11)])) < 2 ^ 30
   \<and> (\<exists>m. setnum_all ex_hashmap32_zero
             [(1, 5::nat), (17, 6), (33, 7), (2, 1), (3, 2), (4, 3), (5, 4), (6, 8), (7, 10),
              (1, 9), (17, 11)] = Some m
          \<and> cap m = 32 \<and> len m = 9
          \<and> ex_hashmap32_getnum m 1 = Some 9 \<and> ex_hashmap32_getnum m 17 = Some 11
          \<and> ex_hashmap32_getnum m 33 = Some 7 \<and> ex_hashmap32_getnum m 7 = Some 10
          \<and> ex_hashmap32_getnum m 8 = Some 0 \<and> ex_hashmap32_getnum m 0 = Some 0)"
proof -
  let ?ops = "[(1::uint32, 5::nat), (17, 6), (33, 7), (2, 1), (3, 2), (4, 3), (5, 4), (6, 8),
               (7, 10), (1, 9), (17, 11)]"
  have h1: "\<forall>(k, v)\<in>set ?ops. k \<noteq> 0" by simp
  have "card (fst ` set (butlast ?ops)) \<le> length (butlast ?ops)"
    by (rule order_trans [OF card_image_le card_length]) simp
  then have h2: "card (fst ` set (butlast ?ops)) < 2 ^ 30" by simp
  have ev: "case setnum_all ex_hashmap32_zero ?ops of
              Some m \<Rightarrow> cap m = 32 \<and> len m = 9 | None \<Rightarrow> False"
    by code_simp
  from getnum_after_setnum_all [OF h1] h2
  obtain m where m: "setnum_all ex_hashmap32_zero ?ops = Some m"
    "\<And>k. ex_hashmap32_getnum m k
           = Some (case map_of (rev ?ops) k of None \<Rightarrow> 0 | Some v \<Rightarrow> v)"
    by (simp only: if_True) blast
  have "ex_hashmap32_getnum m 1 = Some 9" "ex_hashmap32_getnum m 17 = Some 11"
    "ex_hashmap32_getnum m 33 = Some 7" "ex_hashmap32_getnum m 7 = Some 10"
    "ex_hashmap32_getnum m 8 = Some 0" "ex_hashmap32_getnum m 0 = Some 0"
    unfolding m(2) by simp_all
  moreover have "cap m = 32 \<and> len m = 9" using ev m(1) by simp
  ultimately show ?thesis using m(1) h2 by blast
qed

subsection \<open>Checksums\<close>

text \<open>
  C9. A playlist entry that passes the checks of lines 557 to 564 and whose checksum
  string parses to 0 leaves the map of its database as it was (only the count of used
  entries goes up), and a lookup of the checksum 0 in that map gives no entry: no record
  of the database is matched with the playlist entry.
\<close>

theorem zero_checksum_not_indexed:
  assumes "crc32 pe = Some c" "c \<noteq> []" "db_name pe = Some d" "d \<noteq> []"
    and "label pe = Some l" "l \<noteq> []"
    and "strtoul16 c = 0"
  shows "explore_index_playlist_entry (m, used) pe entry = Some (m, used + 1)
       \<and> explore_match_record m 0 = Some 0"
  using assms
  by (simp add: explore_index_playlist_entry_def ex_hashmap32_setnum_def
      explore_match_record_def ex_hashmap32_getnum_def)

theorem zero_checksum_not_indexed_witness:
  "strtoul16 ''00000000'' = 0
   \<and> explore_index_playlist_entry (ex_hashmap32_zero, 0)
        \<lparr>label = Some ''Game'', crc32 = Some ''00000000'', db_name = Some ''db''\<rparr> 1
      = Some (ex_hashmap32_zero, 1)
   \<and> explore_match_record (ex_hashmap32_zero :: nat ex_hashmap32) 0 = Some 0"
proof -
  have z: "strtoul16 ''00000000'' = 0" by code_simp
  show ?thesis
    using zero_checksum_not_indexed [of "\<lparr>label = Some ''Game'', crc32 = Some ''00000000'',
        db_name = Some ''db''\<rparr>" "''00000000''" "''db''" "''Game''" ex_hashmap32_zero 0 1] z
    by simp
qed


subsection \<open>The filter\<close>

lemma split_search_terminated:
  "vs \<noteq> [] \<Longrightarrow> 0 \<notin> set vs \<Longrightarrow> split_search (vs @ [0]) filt = Inr (filt \<in> set vs)"
proof (induction vs)
  case Nil
  then show ?case by simp
next
  case (Cons v vs)
  show ?case
  proof (cases vs)
    case Nil
    then show ?thesis using Cons.prems by auto
  next
    case (Cons w ws)
    then have "split_search (vs @ [0]) filt = Inr (filt \<in> set vs)"
      using Cons.IH Cons.prems by simp
    then show ?thesis using Cons Cons.prems by auto
  qed
qed

lemma split_search_wellformed:
  assumes "split_wellformed (e_split en)" "e_split en = Some arr"
  shows "split_search arr filt = Inr (filt \<in> set (split_values en))"
proof -
  have "arr = butlast arr @ [0]" "butlast arr \<noteq> []" "0 \<notin> set (butlast arr)"
    using assms by (auto simp: split_wellformed_def) (metis append_butlast_last_id)
  then show ?thesis
    using split_search_terminated [of "butlast arr" filt] assms(2)
    by (simp add: split_values_def)
qed

lemma entry_passes_levels_list_all:
  assumes "split_wellformed (e_split en)"
  shows "entry_passes_levels en ls =
           Inr (list_all (\<lambda>l. l_filter l = e_by en (l_cat l)
                              \<or> (l_use_split l \<and> l_filter l \<in> set (split_values en))) ls)"
proof (induction ls)
  case Nil
  show ?case by simp
next
  case (Cons l ls)
  show ?case
  proof (cases "e_split en")
    case None
    then show ?thesis using Cons by (simp add: split_values_def)
  next
    case (Some arr)
    then show ?thesis
      using Cons split_search_wellformed [OF assms Some, of "l_filter l"]
      by (simp split: bool.splits)
  qed
qed

lemma unknown_level:
  assumes "split_wellformed (e_split en)"
  shows "entry_passes_levels en [\<lparr>l_cat = cat, l_use_split = u, l_filter = 0\<rparr>]
           = Inr (e_by en cat = 0)"
proof -
  have "0 \<notin> set (split_values en)"
    using assms by (auto simp: split_wellformed_def split_values_def split: option.splits)
  then show ?thesis unfolding entry_passes_levels_list_all [OF assms] by simp
qed


text \<open>
  C10. In the entry list (no current category) an entry with an alternate title \<open>t\<close> is
  listed exactly when it passes the levels and the free text is empty or occurs in its
  playlist label without regard to case; the item then shows \<open>t\<close>. The alternate title
  has no part in the test.
\<close>

theorem find_tests_label_only:
  "filter_entries settings_last st ls None [en\<lparr>original_title := Some t\<rparr>] k acc =
     (case entry_passes_levels en ls of
        Inl f \<Rightarrow> Inl f
      | Inr ok \<Rightarrow>
          Inr (if ok \<and> (rd (find_string st) 0 = Inr NUL
                         \<or> strcasestr (label_str en) (find_string st))
               then acc\<lparr>menu_list := menu_list acc @
                          [\<lparr>path = t, item_type = EXPLORE_TYPE_FIRSTITEM settings_last + of_nat k\<rparr>]\<rparr>
               else acc))"
proof -
  have "entry_passes_levels (en\<lparr>original_title := Some t\<rparr>) ls = entry_passes_levels en ls"
    by (induction ls) (auto cong: sum.case_cong bool.case_cong)
  then show ?thesis
    by (simp add: entry_passes_find_def emit_entry_def label_str_def split: sum.splits)
qed

theorem find_tests_label_only_witness:
  "filter_entries 100
     \<lparr>arena = [], by_cat = (\<lambda>cat. []), has_unknown = (\<lambda>cat. False), entries = [],
      find_string = ''MARIO''\<rparr> [] None
     [\<lparr>playlist_entry = \<lparr>label = Some ''Super Mario Bros.'', crc32 = None, db_name = None\<rparr>,
       e_by = (\<lambda>cat. 0), e_split = None, original_title = Some ''Suupaa Burazaazu''\<rparr>] 0
     \<lparr>menu_list = [], map_filtered_category = ex_hashmap32_zero,
      filtered_category_have_unknown = False\<rparr>
   = Inr \<lparr>menu_list = [\<lparr>path = ''Suupaa Burazaazu'', item_type = 113\<rparr>],
          map_filtered_category = ex_hashmap32_zero, filtered_category_have_unknown = False\<rparr>
   \<and> filter_entries 100
     \<lparr>arena = [], by_cat = (\<lambda>cat. []), has_unknown = (\<lambda>cat. False), entries = [],
      find_string = ''burazaazu''\<rparr> [] None
     [\<lparr>playlist_entry = \<lparr>label = Some ''Super Mario Bros.'', crc32 = None, db_name = None\<rparr>,
       e_by = (\<lambda>cat. 0), e_split = None, original_title = Some ''Suupaa Burazaazu''\<rparr>] 0
     \<lparr>menu_list = [], map_filtered_category = ex_hashmap32_zero,
      filtered_category_have_unknown = False\<rparr>
   = Inr \<lparr>menu_list = [], map_filtered_category = ex_hashmap32_zero,
          filtered_category_have_unknown = False\<rparr>"
proof -
  let ?en = "\<lparr>playlist_entry = \<lparr>label = Some ''Super Mario Bros.'', crc32 = None,
                 db_name = None\<rparr>,
       e_by = (\<lambda>cat. 0), e_split = None, original_title = None\<rparr>"
  let ?st = "\<lambda>f. \<lparr>arena = [], by_cat = (\<lambda>cat. []), has_unknown = (\<lambda>cat. False), entries = [],
      find_string = f\<rparr>"
  let ?acc = "\<lparr>menu_list = [], map_filtered_category = ex_hashmap32_zero :: nat ex_hashmap32,
      filtered_category_have_unknown = False\<rparr>"
  have a: "strcasestr ''Super Mario Bros.'' ''MARIO''" by code_simp
  have b: "\<not> strcasestr ''Super Mario Bros.'' ''burazaazu''" by code_simp
  show ?thesis
    using find_tests_label_only [where settings_last = 100 and st = "?st ''MARIO''"
        and ls = "[]" and en = ?en and t = "''Suupaa Burazaazu''" and k = 0 and acc = ?acc]
      find_tests_label_only [where settings_last = 100 and st = "?st ''burazaazu''"
        and ls = "[]" and en = ?en and t = "''Suupaa Burazaazu''" and k = 0 and acc = ?acc]
      a b
    by (simp add: rd_def NUL_def label_str_def EXPLORE_TYPE_FIRSTITEM_def
        EXPLORE_TYPE_FIRSTCATEGORY_def)
qed

subsection \<open>Fields without a value\<close>

lemma absent_field_sets_has_unknown:
  "explore_add_unique_string b cat None with_split_buf =
     Some (Inr (b\<lparr>state := (state b)\<lparr>has_unknown := (has_unknown (state b))(cat := True)\<rparr>\<rparr>))"
  by (simp add: explore_add_unique_string_def)

lemma empty_field_sets_has_unknown:
  "explore_add_unique_string b cat (Some []) with_split_buf =
     Some (Inr (b\<lparr>state := (state b)\<lparr>has_unknown := (has_unknown (state b))(cat := True)\<rparr>\<rparr>))"
  by (simp add: explore_add_unique_string_def rd_def)

text \<open>
  C4. An absent or empty field produces no value and sets the has-unknown flag of the
  category (the two lemmas above). A field of one space does not behave like an absent
  field: the leading trim moves \<^verbatim>\<open>str\<close> to the terminator, the trailing trim
  \<^verbatim>\<open>while (p[-1] == ' ') p--;\<close> moves \<^verbatim>\<open>p\<close> back to the first byte and then reads the
  byte before the field. The call ends in that read, whatever the category and the
  state of the build.
\<close>

theorem blank_field_reads_out_of_bounds:
  "explore_add_unique_string b cat (Some '' '') with_split_buf = Some (Inl OutOfBounds)"
  by (simp add: explore_add_unique_string_def add_unique_loop.simps add_unique_step_def
      skip_spaces.simps [of _ 0] skip_spaces.simps [of _ 1]
      skip_spaces_back.simps [of _ 0] skip_spaces_back.simps [of _ 1] rd_def NUL_def)

subsection \<open>Split values\<close>

text \<open>
  C5. A build from one record whose genre field is "Action/Adventure": the genre array
  holds "Action" and "Adventure", the primary genre of the entry is "Action", its split
  values are "Adventure" alone, and the entry passes a filter of one level that selects
  either value of the category.
\<close>

theorem split_integrity_action_adventure:
  "case explore_build_list
          [\<lparr>r_entry = \<lparr>label = Some ''Game'', crc32 = Some ''0A1B2C3D'', db_name = Some ''db''\<rparr>,
            r_fields = (\<lambda>cat. if cat = 4 then Some ''Action/Adventure'' else None),
            r_systemname = None, r_original_title = None\<rparr>] of
     Some (Inr st) \<Rightarrow>
       (case entries st of
          [en] \<Rightarrow>
            map (\<lambda>p. str (deref st p)) (by_cat st 4) = [''Action'', ''Adventure'']
            \<and> e_by en 4 = by_cat st 4 ! 0
            \<and> e_split en = Some [by_cat st 4 ! 1, 0]
            \<and> entry_passes_levels en
                 [\<lparr>l_cat = 4, l_use_split = use_split (explore_by_info ! 4),
                   l_filter = by_cat st 4 ! 0\<rparr>] = Inr True
            \<and> entry_passes_levels en
                 [\<lparr>l_cat = 4, l_use_split = use_split (explore_by_info ! 4),
                   l_filter = by_cat st 4 ! 1\<rparr>] = Inr True
        | _ \<Rightarrow> False)
   | _ \<Rightarrow> False"
  by code_simp


subsection \<open>Interning by hash\<close>

lemma seg_hash_nonzero: "seg_hash s \<noteq> 0"
  by (simp add: seg_hash_def ex_hash32_nocase_filtered_def nonzero_hash_def)






subsection \<open>Company suffixes\<close>

text \<open>
  C2, as stated: in a build from two records with the developer fields
  "Nintendo Co., Ltd." and "Nintendo", the two entries have different developer values,
  "Nintendo Co." and "Nintendo".
\<close>

theorem nintendo_co_ltd_counterexample:
  "case explore_build_list
          [\<lparr>r_entry = \<lparr>label = Some ''A'', crc32 = Some ''0A1B2C3D'', db_name = Some ''db''\<rparr>,
            r_fields = (\<lambda>cat. if cat = 0 then Some ''Nintendo Co., Ltd.'' else None),
            r_systemname = None, r_original_title = None\<rparr>,
           \<lparr>r_entry = \<lparr>label = Some ''B'', crc32 = Some ''0A1B2C3E'', db_name = Some ''db''\<rparr>,
            r_fields = (\<lambda>cat. if cat = 0 then Some ''Nintendo'' else None),
            r_systemname = None, r_original_title = None\<rparr>] of
     Some (Inr st) \<Rightarrow>
       (case entries st of
          [a, b] \<Rightarrow>
            e_by a 0 \<noteq> e_by b 0
            \<and> str (deref st (e_by a 0)) = ''Nintendo Co.''
            \<and> str (deref st (e_by b 0)) = ''Nintendo''
        | _ \<Rightarrow> False)
   | _ \<Rightarrow> False"
  by code_simp

text \<open>
  C2, for the tokens the code strips: the fields "Nintendo Co., Ltd." and "Nintendo Co."
  give one developer value, "Nintendo Co."; the fields "Nintendo, Ltd." and "Nintendo"
  give one developer value, "Nintendo"; no field leaves a split value.
\<close>

theorem company_suffix_canonical:
  "case explore_build_list
          [\<lparr>r_entry = \<lparr>label = Some ''A'', crc32 = Some ''0A1B2C3D'', db_name = Some ''db''\<rparr>,
            r_fields = (\<lambda>cat. if cat = 0 then Some ''Nintendo Co., Ltd.'' else None),
            r_systemname = None, r_original_title = None\<rparr>,
           \<lparr>r_entry = \<lparr>label = Some ''B'', crc32 = Some ''0A1B2C3E'', db_name = Some ''db''\<rparr>,
            r_fields = (\<lambda>cat. if cat = 0 then Some ''Nintendo Co.'' else None),
            r_systemname = None, r_original_title = None\<rparr>,
           \<lparr>r_entry = \<lparr>label = Some ''C'', crc32 = Some ''0A1B2C3F'', db_name = Some ''db''\<rparr>,
            r_fields = (\<lambda>cat. if cat = 0 then Some ''Nintendo, Ltd.'' else None),
            r_systemname = None, r_original_title = None\<rparr>,
           \<lparr>r_entry = \<lparr>label = Some ''D'', crc32 = Some ''0A1B2C40'', db_name = Some ''db''\<rparr>,
            r_fields = (\<lambda>cat. if cat = 0 then Some ''Nintendo'' else None),
            r_systemname = None, r_original_title = None\<rparr>] of
     Some (Inr st) \<Rightarrow>
       (case entries st of
          [a, b, c, d] \<Rightarrow>
            map (\<lambda>p. str (deref st p)) (by_cat st 0) = [''Nintendo'', ''Nintendo Co.'']
            \<and> e_by a 0 = by_cat st 0 ! 1 \<and> e_by b 0 = by_cat st 0 ! 1
            \<and> e_by c 0 = by_cat st 0 ! 0 \<and> e_by d 0 = by_cat st 0 ! 0
            \<and> map e_split [a, b, c, d] = [None, None, None, None]
        | _ \<Rightarrow> False)
   | _ \<Rightarrow> False"
  by code_simp

subsection \<open>The order of the values\<close>

text \<open>
  C1, as stated: in a build from two records with the developer fields "apple" and
  "Banana", the developer array is "Banana", "apple", and the case-insensitive
  comparison of this adjacent pair is neither smaller than 0 nor 0.
\<close>

theorem facet_order_counterexample:
  "case explore_build_list
          [\<lparr>r_entry = \<lparr>label = Some ''A'', crc32 = Some ''0A1B2C3D'', db_name = Some ''db''\<rparr>,
            r_fields = (\<lambda>cat. if cat = 0 then Some ''apple'' else None),
            r_systemname = None, r_original_title = None\<rparr>,
           \<lparr>r_entry = \<lparr>label = Some ''B'', crc32 = Some ''0A1B2C3E'', db_name = Some ''db''\<rparr>,
            r_fields = (\<lambda>cat. if cat = 0 then Some ''Banana'' else None),
            r_systemname = None, r_original_title = None\<rparr>] of
     Some (Inr st) \<Rightarrow>
       map (\<lambda>p. str (deref st p)) (by_cat st 0) = [''Banana'', ''apple'']
       \<and> \<not> (strcasecmp ''Banana'' ''apple'' < 0
              \<or> (strcasecmp ''Banana'' ''apple'' = 0
                  \<and> first_byte ''Banana'' \<le> first_byte ''apple''))
   | _ \<Rightarrow> False"
  by code_simp

lemma strcasecmp_neg: "strcasecmp b a = - strcasecmp a b"
proof (induction a b rule: strcasecmp.induct)
  case (4 a as b bs)
  show ?case
  proof (cases "tolower a = tolower b")
    case True
    then show ?thesis using 4 by simp
  next
    case False
    then have "tolower b \<noteq> tolower a" by simp
    then show ?thesis using False by simp
  qed
qed simp_all

lemma explore_qsort_func_neg: "explore_qsort_func b a = - explore_qsort_func a b"
  using strcasecmp_neg [of a b] by (auto simp: explore_qsort_func_def)

lemma explore_qsort_func_le:
  "explore_qsort_func a b \<le> 0 \<longleftrightarrow>
     first_byte a < first_byte b \<or> (first_byte a = first_byte b \<and> strcasecmp a b \<le> 0)"
  by (auto simp: explore_qsort_func_def)

lemma hd_qsort_insert:
  "hd (qsort_insert cmp x ys) = (if ys = [] \<or> cmp x (hd ys) \<le> 0 then x else hd ys)"
  by (cases ys) simp_all

lemma qsort_insert_not_Nil: "qsort_insert cmp x ys \<noteq> []"
  by (cases ys) simp_all

lemma successively_qsort_insert:
  assumes tot: "\<And>a b. cmp a b > 0 \<Longrightarrow> cmp b a \<le> 0"
  shows "successively (\<lambda>a b. cmp a b \<le> 0) ys
         \<Longrightarrow> successively (\<lambda>a b. cmp a b \<le> 0) (qsort_insert cmp x ys)"
proof (induction ys)
  case Nil
  then show ?case by simp
next
  case (Cons y ys)
  show ?case
  proof (cases "cmp x y \<le> 0")
    case True
    then show ?thesis using Cons.prems by simp
  next
    case False
    then have yx: "cmp y x \<le> 0" using tot [of x y] by simp
    have ys: "successively (\<lambda>a b. cmp a b \<le> 0) ys"
      using Cons.prems by (auto simp: successively_Cons)
    have "cmp y (hd (qsort_insert cmp x ys)) \<le> 0"
      using yx Cons.prems by (auto simp: hd_qsort_insert successively_Cons)
    then show ?thesis
      using False Cons.IH [OF ys] by (simp add: successively_Cons qsort_insert_not_Nil)
  qed
qed

lemma successively_qsort:
  assumes "\<And>a b. cmp a b > 0 \<Longrightarrow> cmp b a \<le> 0"
  shows "successively (\<lambda>a b. cmp a b \<le> 0) (qsort cmp xs)"
  unfolding qsort_def
  by (induction xs) (simp_all add: successively_qsort_insert [OF assms])

lemma set_qsort_insert: "set (qsort_insert cmp x ys) = insert x (set ys)"
  by (induction ys) auto

lemma set_qsort: "set (qsort cmp xs) = set xs"
  unfolding qsort_def by (induction xs) (simp_all add: set_qsort_insert)

lemma length_qsort_insert: "length (qsort_insert cmp x ys) = Suc (length ys)"
  by (induction ys) auto

lemma length_qsort: "length (qsort cmp xs) = length xs"
  unfolding qsort_def by (induction xs) (simp_all add: length_qsort_insert)

lemma qsort_insert_cong:
  "(\<And>a b. a \<in> insert x (set ys) \<Longrightarrow> b \<in> insert x (set ys) \<Longrightarrow> cmp a b = cmp' a b)
   \<Longrightarrow> qsort_insert cmp x ys = qsort_insert cmp' x ys"
  by (induction ys) auto

lemma qsort_cong:
  "(\<And>a b. a \<in> set xs \<Longrightarrow> b \<in> set xs \<Longrightarrow> cmp a b = cmp' a b)
   \<Longrightarrow> qsort cmp xs = qsort cmp' xs"
proof (induction xs)
  case Nil
  show ?case by (simp add: qsort_def)
next
  case (Cons x xs)
  have "qsort cmp xs = qsort cmp' xs" using Cons by simp
  moreover have "qsort_insert cmp x (qsort cmp' xs) = qsort_insert cmp' x (qsort cmp' xs)"
    using Cons.prems by (intro qsort_insert_cong) (auto simp: set_qsort)
  ultimately show ?case by (simp add: qsort_def)
qed

lemma map_update_same: "(map f xs)[i := f (xs ! i)] = map f xs"
proof (cases "i < length xs")
  case True
  then show ?thesis by (simp add: list_update_same_conv)
next
  case False
  then show ?thesis by (intro list_update_beyond) simp
qed

lemma assign_idx_str: "map str (assign_idx ar ps k) = map str ar"
proof (induction ps arbitrary: ar k)
  case Nil
  show ?case by simp
next
  case (Cons p ps)
  have "map str (ar[p - 1 := (ar ! (p - 1))\<lparr>idx := of_nat k\<rparr>]) = map str ar"
    using map_update_same [of str ar "p - 1"] by (simp add: map_update)
  then show ?case using Cons by simp
qed

lemma deref_str: "valid_ptr st p \<Longrightarrow> str (deref st p) = map str (arena st) ! (p - 1)"
proof -
  assume "valid_ptr st p"
  then have "p - 1 < length (arena st)" by (auto simp: valid_ptr_def)
  then show ?thesis by (simp add: deref_def)
qed

lemma valid_ptr_cong: "map str (arena st') = map str (arena st) \<Longrightarrow> valid_ptr st' = valid_ptr st"
proof -
  assume "map str (arena st') = map str (arena st)"
  then have "length (arena st') = length (arena st)" by (rule map_eq_imp_length_eq)
  then show ?thesis by (simp add: valid_ptr_def fun_eq_iff)
qed

lemma sort_category_result:
  assumes "sort_category st c = Some (Inr st')"
  shows "map str (arena st') = map str (arena st)"
    and "by_cat st' = (by_cat st)(c := qsort (cmp_strings (map str (arena st))) (by_cat st c))"
    and "list_all (valid_ptr st) (by_cat st c)"
    and "entries st' = entries st"
proof -
  have v: "list_all (valid_ptr st) (by_cat st c)"
    using assms by (auto simp: sort_category_def split: if_splits)
  then have "qsort (explore_qsort_func_strings st) (by_cat st c)
      = qsort (cmp_strings (map str (arena st))) (by_cat st c)"
    by (intro qsort_cong)
       (simp add: list_all_iff explore_qsort_func_strings_def cmp_strings_def deref_str)
  then show "by_cat st' = (by_cat st)(c := qsort (cmp_strings (map str (arena st))) (by_cat st c))"
    using assms by (auto simp: sort_category_def Let_def split: if_splits)
  show "map str (arena st') = map str (arena st)"
    using assms by (auto simp: sort_category_def Let_def assign_idx_str split: if_splits)
  show "list_all (valid_ptr st) (by_cat st c)" by (rule v)
  show "entries st' = entries st"
    using assms by (auto simp: sort_category_def Let_def split: if_splits)
qed

lemma cmp_strings_total: "cmp_strings S a b > 0 \<Longrightarrow> cmp_strings S b a \<le> 0"
  using explore_qsort_func_neg [of "S ! (a - 1)" "S ! (b - 1)"] by (simp add: cmp_strings_def)

lemma sort_categories_result:
  assumes "sort_categories st cats = Some (Inr st')" "distinct cats"
  shows "map str (arena st') = map str (arena st)
       \<and> entries st' = entries st
       \<and> (\<forall>c\<in>set cats. list_all (valid_ptr st) (by_cat st' c)
              \<and> successively (\<lambda>a b. cmp_strings (map str (arena st)) a b \<le> 0) (by_cat st' c))
       \<and> (\<forall>c. c \<notin> set cats \<longrightarrow> by_cat st' c = by_cat st c)"
  using assms
proof (induction cats arbitrary: st)
  case Nil
  then show ?case by simp
next
  case (Cons c cats)
  from Cons.prems(1) obtain st1 where st1: "sort_category st c = Some (Inr st1)"
    "sort_categories st1 cats = Some (Inr st')"
    by (auto split: option.splits sum.splits)
  note r = sort_category_result [OF st1(1)]
  have d: "distinct cats" "c \<notin> set cats" using Cons.prems(2) by simp_all
  note ih = Cons.IH [OF st1(2) d(1)]
  have S: "map str (arena st1) = map str (arena st)" by (rule r(1))
  have vp: "valid_ptr st1 = valid_ptr st" by (rule valid_ptr_cong [OF S])
  have c1: "by_cat st' c = qsort (cmp_strings (map str (arena st))) (by_cat st c)"
    using ih d(2) r(2) by simp
  have "list_all (valid_ptr st) (by_cat st' c)"
    unfolding c1 using r(3) by (simp add: list_all_iff set_qsort)
  moreover have "successively (\<lambda>a b. cmp_strings (map str (arena st)) a b \<le> 0) (by_cat st' c)"
    unfolding c1 by (rule successively_qsort) (rule cmp_strings_total)
  moreover have "\<forall>c'. c' \<notin> set (c # cats) \<longrightarrow> by_cat st' c' = by_cat st c'"
    using ih r(2) by simp
  ultimately show ?case using ih S vp r(4) by simp
qed


text \<open>
  C1, with the keys in the order of the code: after a build, in the array of every
  category, each value and its successor have first bytes in strictly ascending order,
  or the same first byte and a case-insensitive comparison that is smaller than 0 or 0.
  The first byte is the primary key and the case-insensitive comparison breaks ties.
\<close>

theorem facets_sorted_after_build:
  assumes "explore_build_list rs = Some (Inr st)" and "cat < EXPLORE_CAT_COUNT"
    and "Suc i < length (by_cat st cat)"
  shows "first_byte (str (deref st (by_cat st cat ! i)))
           < first_byte (str (deref st (by_cat st cat ! Suc i)))
       \<or> (first_byte (str (deref st (by_cat st cat ! i)))
           = first_byte (str (deref st (by_cat st cat ! Suc i)))
          \<and> strcasecmp (str (deref st (by_cat st cat ! i)))
               (str (deref st (by_cat st cat ! Suc i))) \<le> 0)"
proof -
  from assms(1) obtain b st0 where b: "add_records build_init rs = Some (Inr b)"
    and st0: "sort_categories (state b) [0..<EXPLORE_CAT_COUNT] = Some (Inr st0)"
    and st: "st = st0\<lparr>entries := qsort explore_qsort_func_entries (entries st0)\<rparr>"
    by (auto simp: explore_build_list_def explore_build_finish_def
        split: option.splits sum.splits)
  note r = sort_categories_result [OF st0]
  have c: "cat \<in> set [0..<EXPLORE_CAT_COUNT]" using assms(2) by simp
  have S: "map str (arena st) = map str (arena (state b))" using r st by simp
  have bc: "by_cat st cat = by_cat st0 cat" using st by simp
  have v: "list_all (valid_ptr st) (by_cat st cat)"
    using r c valid_ptr_cong [OF S] bc by simp
  have "successively (\<lambda>a b. cmp_strings (map str (arena st)) a b \<le> 0) (by_cat st cat)"
    using r c S bc by simp
  then have le: "cmp_strings (map str (arena st)) (by_cat st cat ! i) (by_cat st cat ! Suc i) \<le> 0"
    using assms(3) by (simp add: successively_conv_nth)
  have "valid_ptr st (by_cat st cat ! i)" "valid_ptr st (by_cat st cat ! Suc i)"
    using v assms(3) by (simp_all add: list_all_length)
  then have "explore_qsort_func (str (deref st (by_cat st cat ! i)))
      (str (deref st (by_cat st cat ! Suc i))) \<le> 0"
    using le by (simp add: cmp_strings_def deref_str)
  then show ?thesis by (simp add: explore_qsort_func_le)
qed

theorem facets_sorted_after_build_witness:
  "case explore_build_list
          [\<lparr>r_entry = \<lparr>label = Some ''A'', crc32 = Some ''0A1B2C3D'', db_name = Some ''db''\<rparr>,
            r_fields = (\<lambda>cat. if cat = 0 then Some ''apple'' else None),
            r_systemname = None, r_original_title = None\<rparr>,
           \<lparr>r_entry = \<lparr>label = Some ''B'', crc32 = Some ''0A1B2C3E'', db_name = Some ''db''\<rparr>,
            r_fields = (\<lambda>cat. if cat = 0 then Some ''Banana'' else None),
            r_systemname = None, r_original_title = None\<rparr>] of
     Some (Inr st) \<Rightarrow>
       Suc 0 < length (by_cat st 0)
       \<and> (first_byte (str (deref st (by_cat st 0 ! 0)))
             < first_byte (str (deref st (by_cat st 0 ! Suc 0)))
          \<or> (first_byte (str (deref st (by_cat st 0 ! 0)))
               = first_byte (str (deref st (by_cat st 0 ! Suc 0)))
              \<and> strcasecmp (str (deref st (by_cat st 0 ! 0)))
                   (str (deref st (by_cat st 0 ! Suc 0))) \<le> 0))
   | _ \<Rightarrow> False"
proof -
  let ?rs = "[\<lparr>r_entry = \<lparr>label = Some ''A'', crc32 = Some ''0A1B2C3D'', db_name = Some ''db''\<rparr>,
            r_fields = (\<lambda>cat. if cat = 0 then Some ''apple'' else None),
            r_systemname = None, r_original_title = None\<rparr>,
           \<lparr>r_entry = \<lparr>label = Some ''B'', crc32 = Some ''0A1B2C3E'', db_name = Some ''db''\<rparr>,
            r_fields = (\<lambda>cat. if cat = 0 then Some ''Banana'' else None),
            r_systemname = None, r_original_title = None\<rparr>]"
  have ev: "case explore_build_list ?rs of
              Some (Inr st) \<Rightarrow> length (by_cat st 0) = 2 | _ \<Rightarrow> False"
    by code_simp
  show ?thesis
  proof (cases "explore_build_list ?rs")
    case None
    then show ?thesis using ev by simp
  next
    case (Some r)
    show ?thesis
    proof (cases r)
      case (Inl f)
      then show ?thesis using ev Some by simp
    next
      case (Inr st)
      then have b: "explore_build_list ?rs = Some (Inr st)" using Some by simp
      have l: "length (by_cat st 0) = 2" using ev b by simp
      have c: "0 < EXPLORE_CAT_COUNT" by (simp add: EXPLORE_CAT_COUNT_def)
      have i: "Suc 0 < length (by_cat st 0)" using l by simp
      show ?thesis using facets_sorted_after_build [OF b c i] b i by simp
    qed
  qed
qed

subsection \<open>The entries of a built index\<close>

lemma rd_ok: "rd s i = Inr c \<Longrightarrow> 0 \<le> i \<and> i \<le> int (length s)"
  by (auto simp: rd_def split: if_splits)

lemma skip_spaces_ge: "skip_spaces s i = Inr j \<Longrightarrow> i \<le> j \<and> 0 \<le> i \<and> j \<le> int (length s)"
proof (induction s i rule: skip_spaces.induct)
  case (1 s i)
  show ?case
  proof (cases "rd s i")
    case (Inl f)
    then show ?thesis using "1.prems" by (simp add: skip_spaces.simps [of s i])
  next
    case (Inr c)
    show ?thesis
    proof (cases "c = CHR '' ''")
      case True
      then have "skip_spaces s (i + 1) = Inr j"
        using "1.prems" Inr by (simp add: skip_spaces.simps [of s i])
      then show ?thesis using "1.IH" [OF Inr True] rd_ok [OF Inr] by simp
    next
      case False
      then show ?thesis using "1.prems" Inr rd_ok [OF Inr] by (simp add: skip_spaces.simps [of s i])
    qed
  qed
qed

lemma skip_spaces_back_le: "skip_spaces_back s p = Inr q \<Longrightarrow> q \<le> p \<and> 1 \<le> q"
proof (induction s p rule: skip_spaces_back.induct)
  case (1 s p)
  show ?case
  proof (cases "rd s (p - 1)")
    case (Inl f)
    then show ?thesis using "1.prems" by (simp add: skip_spaces_back.simps [of s p])
  next
    case (Inr c)
    show ?thesis
    proof (cases "c = CHR '' ''")
      case True
      then have "skip_spaces_back s (p - 1) = Inr q"
        using "1.prems" Inr by (simp add: skip_spaces_back.simps [of s p])
      then show ?thesis using "1.IH" [OF Inr True] by simp
    next
      case False
      then show ?thesis
        using "1.prems" Inr rd_ok [OF Inr] by (simp add: skip_spaces_back.simps [of s p])
    qed
  qed
qed

lemma suffix_length_nonneg: "suffix_length s p = Inr k \<Longrightarrow> 0 \<le> k"
  by (auto simp: suffix_length_def split: sum.splits)

lemma suffix_tokens_nonneg: "suffix_tokens s p = Inr k \<Longrightarrow> 0 \<le> k"
  by (auto simp: suffix_tokens_def split: sum.splits bool.splits dest: suffix_length_nonneg)

lemma check_company_suffix_nonneg: "explore_check_company_suffix s p r = Inr k \<Longrightarrow> 0 \<le> k"
  by (auto simp: explore_check_company_suffix_def Let_def
           split: sum.splits if_splits dest: suffix_tokens_nonneg)

lemma rd_bytes_nul_free:
  assumes c: "cstring s" and "0 \<le> i" "i \<le> int (length s)" "1 \<le> p" "p \<le> int (length s)"
    and r: "rd_bytes s i ((p - i) mod 2 ^ 64) = Inr bytes"
  shows "NUL \<notin> set bytes"
proof (cases "i \<le> p")
  case True
  have "p - i < 2 ^ 64" using assms c by (simp add: cstring_def)
  then have n: "(p - i) mod 2 ^ 64 = p - i" using True by simp
  have "bytes = take (nat (p - i)) (drop (nat i) (s @ [NUL]))"
    using r unfolding n by (simp add: rd_bytes_def split: if_splits)
  also have "\<dots> = take (nat (p - i)) (drop (nat i) s)"
    using assms True by simp
  finally have "set bytes \<subseteq> set s"
    by (metis set_drop_subset set_take_subset subset_trans)
  then show ?thesis using c by (auto simp: cstring_def)
next
  case False
  have b: "0 \<le> p - i + 2 ^ 64" "p - i + 2 ^ 64 < 2 ^ 64"
    using assms c False by (simp_all add: cstring_def)
  have "(p - i + 2 ^ 64) mod 2 ^ 64 = p - i + 2 ^ 64"
    using b by (rule mod_pos_pos_trivial)
  moreover have "(p - i + 2 ^ 64) mod 2 ^ 64 = (p - i) mod 2 ^ 64" by simp
  ultimately have "(p - i) mod 2 ^ 64 = p - i + 2 ^ 64" by simp
  then have "i + (p - i) mod 2 ^ 64 > int (length s) + 1"
    using assms c by (simp add: cstring_def)
  then show ?thesis using r by (simp add: rd_bytes_def split: if_splits)
qed


lemma segment_added_refl: "segment_added cat hb s str0 b b"
  by (simp add: segment_added_def)

lemma add_unique_step_effect:
  "case add_unique_step cat hb co s str0 p0 b of
     Fault f \<Rightarrow> True
   | Next str' p' b' \<Rightarrow> (0 \<le> str0 \<longrightarrow> 0 \<le> str') \<and> segment_added cat hb s str0 b b'
   | Return b' \<Rightarrow> segment_added cat hb s str0 b b'"
proof (cases "rd s p0")
  case (Inl f)
  then show ?thesis by (auto simp: add_unique_step_def segment_added_refl)
next
  case c: (Inr c)
  note p0 = rd_ok [OF c]
  show ?thesis
  proof (cases "(c \<noteq> CHR ''/'' \<and> c \<noteq> CHR '','' \<and> c \<noteq> CHR ''|'' \<and> c \<noteq> NUL) \<or> (\<not> hb \<and> c \<noteq> NUL)")
    case True
    then show ?thesis using c by (auto simp: add_unique_step_def segment_added_refl)
  next
    case sep: False
    show ?thesis
    proof (cases "skip_spaces s str0")
      case (Inl f)
      then show ?thesis using c sep by (auto simp: add_unique_step_def)
    next
      case s1: (Inr str1)
      note str1 = skip_spaces_ge [OF s1]
      show ?thesis
      proof (cases "skip_spaces_back s p0")
        case (Inl f)
        then show ?thesis using c sep s1 by (auto simp: add_unique_step_def)
      next
        case b1: (Inr p1)
        note p1 = skip_spaces_back_le [OF b1]
        show ?thesis
        proof (cases "p1 = str1")
          case True
          then show ?thesis
            using c sep s1 b1 str1
            by (auto simp: add_unique_step_def segment_added_refl split: sum.splits)
        next
          case ne: False
          let ?trim = "if co \<and> p1 - str1 > 5
                       then (case explore_check_company_suffix s p1 True of
                               Inl f \<Rightarrow> Inl f
                             | Inr k \<Rightarrow> skip_spaces_back s (p1 - k))
                       else Inr p1"
          show ?thesis
          proof (cases ?trim)
            case (Inl f)
            then show ?thesis using c sep s1 b1 ne by (auto simp: add_unique_step_def segment_added_refl)
          next
            case t: (Inr p2)
            have p2: "1 \<le> p2 \<and> p2 \<le> int (length s)"
            proof (cases "co \<and> p1 - str1 > 5")
              case True
              then obtain k where k: "explore_check_company_suffix s p1 True = Inr k"
                  "skip_spaces_back s (p1 - k) = Inr p2"
                using t by (auto split: sum.splits)
              show ?thesis
                using skip_spaces_back_le [OF k(2)] check_company_suffix_nonneg [OF k(1)] p1 p0
                by simp
            next
              case False
              then show ?thesis using t p1 p0 by auto
            qed
            show ?thesis
            proof (cases "rd_bytes s str1 ((p2 - str1) mod 2 ^ 64)")
              case (Inl f)
              then show ?thesis using c sep s1 b1 ne t by (auto simp: add_unique_step_def segment_added_refl)
            next
              case rb: (Inr bytes)
              have nul: "cstring s \<and> 0 \<le> str0 \<longrightarrow> NUL \<notin> set bytes"
                using rd_bytes_nul_free [OF _ _ _ _ _ rb] str1 p2 by auto
              show ?thesis
              proof (cases "intern_segment cat bytes b")
                case (Inl f)
                then show ?thesis using c sep s1 b1 ne t rb by (auto simp: add_unique_step_def segment_added_refl)
              next
                case (Inr eb)
                then obtain entry bb where i: "intern_segment cat bytes b = Inr (entry, bb)"
                  by (cases eb) auto
                show ?thesis
                proof (cases "attach_value cat hb entry bb")
                  case (Inl f)
                  then show ?thesis
                    using c sep s1 b1 ne t rb i by (auto simp: add_unique_step_def segment_added_refl)
                next
                  case a: (Inr b2)
                  have sa: "segment_added cat hb s str0 b b2"
                    unfolding segment_added_def using nul i a by blast
                  have ac: "0 \<le> q" if "after_comma s p0 = Inr (Some q)" for q
                    using that p0
                    by (auto simp: after_comma_def split: sum.splits if_splits dest: rd_ok)
                  show ?thesis
                    using c sep s1 b1 ne t rb i a sa p0 ac
                    by (auto simp: add_unique_step_def split: sum.splits option.splits)
                qed
              qed
            qed
          qed
        qed
      qed
    qed
  qed
qed

lemma add_unique_loop_inv:
  assumes step: "\<And>str0 b b'. I b \<Longrightarrow> 0 \<le> str0 \<Longrightarrow> segment_added cat hb s str0 b b' \<Longrightarrow> I b'"
    and run: "add_unique_loop cat hb co s str0 p0 b = Some (Inr b')"
    and "I b" "0 \<le> str0"
  shows "I b'"
proof -
  have "cat = cat \<and> hb = hb \<and> s = s \<longrightarrow>
          I b \<and> 0 \<le> str0 \<longrightarrow> (\<forall>b'. r = Inr b' \<longrightarrow> I b')"
    if "add_unique_loop cat hb co s str0 p0 b = Some r" for r
  proof (rule add_unique_loop.raw_induct [where P = "\<lambda>cat' hb' co' s' str0 p0 b r.
            cat' = cat \<and> hb' = hb \<and> s' = s \<longrightarrow>
            I b \<and> 0 \<le> str0 \<longrightarrow> (\<forall>b'. r = Inr b' \<longrightarrow> I b')", OF _ that])
    fix loop :: "nat \<Rightarrow> bool \<Rightarrow> bool \<Rightarrow> string \<Rightarrow> int \<Rightarrow> int \<Rightarrow> build_t \<Rightarrow> (fault + build_t) option"
      and cat' hb' co' s' str0 p0 b r
    assume IH: "\<And>cat' hb' co' s' str0 p0 b r. loop cat' hb' co' s' str0 p0 b = Some r \<Longrightarrow>
            cat' = cat \<and> hb' = hb \<and> s' = s \<longrightarrow>
            I b \<and> 0 \<le> str0 \<longrightarrow> (\<forall>b'. r = Inr b' \<longrightarrow> I b')"
      and eq: "(case add_unique_step cat' hb' co' s' str0 p0 b of
                  Fault f \<Rightarrow> Some (Inl f)
                | Return b' \<Rightarrow> Some (Inr b')
                | Next str1 p1 b' \<Rightarrow> loop cat' hb' co' s' str1 p1 b') = Some r"
    show "cat' = cat \<and> hb' = hb \<and> s' = s \<longrightarrow>
            I b \<and> 0 \<le> str0 \<longrightarrow> (\<forall>b'. r = Inr b' \<longrightarrow> I b')"
    proof (intro impI allI)
      fix b'
      assume same: "cat' = cat \<and> hb' = hb \<and> s' = s" and Ib: "I b \<and> 0 \<le> str0" and r: "r = Inr b'"
      show "I b'"
      proof (cases "add_unique_step cat hb co' s str0 p0 b")
        case (Fault f)
        then show ?thesis using eq same r by simp
      next
        case (Return b2)
        then have "b2 = b'" using eq same r by simp
        then show ?thesis
          using add_unique_step_effect [where cat = cat and hb = hb and co = co' and s = s and ?str0.0 = str0 and ?p0.0 = p0 and b = b] Return step Ib by auto
      next
        case (Next str1 p1 b2)
        then have l: "loop cat hb co' s str1 p1 b2 = Some r" using eq same by simp
        have "(0 \<le> str0 \<longrightarrow> 0 \<le> str1) \<and> segment_added cat hb s str0 b b2"
          using add_unique_step_effect [where cat = cat and hb = hb and co = co' and s = s and ?str0.0 = str0 and ?p0.0 = p0 and b = b] Next by simp
        then have "I b2 \<and> 0 \<le> str1" using step Ib by blast
        then show ?thesis using IH [OF l] r by simp
      qed
    qed
  qed
  then show ?thesis using run assms(3,4) by blast
qed


lemma explore_add_unique_string_inv:
  assumes seg: "\<And>cat hb s str0 b b'.
                  I b \<Longrightarrow> ok s \<Longrightarrow> 0 \<le> str0 \<Longrightarrow> segment_added cat hb s str0 b b' \<Longrightarrow> I b'"
    and unk: "\<And>b h. I b \<Longrightarrow> I (b\<lparr>state := (state b)\<lparr>has_unknown := h\<rparr>\<rparr>)"
    and run: "explore_add_unique_string b cat str0 w = Some (Inr b')"
    and "I b" "\<forall>s. str0 = Some s \<longrightarrow> ok s"
  shows "I b'"
proof (cases "str0 = None \<or> rd (the str0) 0 = Inr NUL")
  case True
  then have "b' = b\<lparr>state := (state b)\<lparr>has_unknown := (has_unknown (state b))(cat := True)\<rparr>\<rparr>"
    using run by (simp add: explore_add_unique_string_def)
  then show ?thesis using unk [OF assms(4)] by simp
next
  case False
  then obtain s where s: "str0 = Some s" by auto
  then have ok: "ok s" using assms(5) by simp
  have l: "add_unique_loop cat (w \<and> use_split (explore_by_info ! cat))
             (is_company (explore_by_info ! cat)) s 0 1 b = Some (Inr b')"
    using run False s by (simp add: explore_add_unique_string_def)
  show ?thesis
    by (rule add_unique_loop_inv [where I = I, OF _ l assms(4)]) (auto intro: seg [OF _ ok])
qed

lemma add_fields_inv:
  assumes seg: "\<And>cat hb s str0 b b'.
                  I b \<Longrightarrow> ok s \<Longrightarrow> 0 \<le> str0 \<Longrightarrow> segment_added cat hb s str0 b b' \<Longrightarrow> I b'"
    and unk: "\<And>b h. I b \<Longrightarrow> I (b\<lparr>state := (state b)\<lparr>has_unknown := h\<rparr>\<rparr>)"
  shows "add_fields b raw cats = Some (Inr b') \<Longrightarrow> I b
         \<Longrightarrow> \<forall>c\<in>set cats. \<forall>s. raw c = Some s \<longrightarrow> ok s \<Longrightarrow> I b'"
proof (induction cats arbitrary: b)
  case Nil
  then show ?case by simp
next
  case (Cons c cats)
  then obtain b1 where b1: "explore_add_unique_string b c (raw c) True = Some (Inr b1)"
      "add_fields b1 raw cats = Some (Inr b')"
    by (auto split: option.splits sum.splits)
  have "I b1"
    using explore_add_unique_string_inv [where I = I and ok = ok, OF seg unk b1(1) Cons.prems(2)]
      Cons.prems(3) by simp
  then show ?case using Cons.IH [OF b1(2)] Cons.prems(3) by simp
qed

lemma intern_segment_frame:
  assumes "intern_segment cat bytes b = Inr (p, b1)"
  shows "p \<noteq> 0" "split_buf b1 = split_buf b" "e b1 = e b"
    "entries (state b1) = entries (state b)"
  using assms
  by (auto simp: intern_segment_def Let_def split: option.splits if_splits)

lemma attach_value_frame:
  assumes "attach_value cat hb p b1 = Inr b'"
  shows "maps b' = maps b1" "state b' = state b1" "e_split (e b') = e_split (e b1)"
    "set (split_buf b') \<subseteq> insert p (set (split_buf b1))"
  using assms by (auto simp: attach_value_def split: if_splits)

lemma entries_inv_segment:
  assumes "entries_inv b" "segment_added cat hb s str0 b b'"
  shows "entries_inv b'"
proof (cases "b' = b")
  case True
  then show ?thesis using assms by simp
next
  case False
  then obtain bytes p b1 where i: "intern_segment cat bytes b = Inr (p, b1)"
      and a: "attach_value cat hb p b1 = Inr b'"
    using assms(2) by (auto simp: segment_added_def)
  show ?thesis
    using assms(1) intern_segment_frame [OF i] attach_value_frame [OF a]
    by (auto simp: entries_inv_def)
qed

lemma entries_inv_record:
  assumes "explore_add_record b r = Some (Inr b')"
    and "split_buf b = []" "\<forall>en\<in>set (entries (state b)). split_wellformed (e_split en)"
  shows "split_buf b' = [] \<and> (\<forall>en\<in>set (entries (state b')). split_wellformed (e_split en))"
proof -
  let ?e0 = "\<lparr>playlist_entry = r_entry r, e_by = (\<lambda>cat. 0), e_split = None,
              original_title = None\<rparr>"
  obtain b1 b2 where b1: "add_fields (b\<lparr>e := ?e0\<rparr>) (r_fields r) [0..<EXPLORE_CAT_COUNT] = Some (Inr b1)"
    and b2: "explore_add_unique_string b1 EXPLORE_BY_SYSTEM (r_systemname r) False = Some (Inr b2)"
    using assms(1) by (auto simp: explore_add_record_def Let_def split: option.splits sum.splits)
  have i0: "entries_inv (b\<lparr>e := ?e0\<rparr>)" using assms(2,3) by (simp add: entries_inv_def)
  have unk: "entries_inv (b\<lparr>state := (state b)\<lparr>has_unknown := h\<rparr>\<rparr>)" if "entries_inv b" for b h
    using that by (simp add: entries_inv_def)
  have seg: "entries_inv b'" if "entries_inv b" "True" "0 \<le> str0" "segment_added cat hb s str0 b b'"
    for cat hb s str0 b b'
    using entries_inv_segment [OF that(1,4)] .
  have i1: "entries_inv b1"
    by (rule add_fields_inv [where I = entries_inv and ok = "\<lambda>s. True", OF seg unk b1 i0]) simp_all
  have i2: "entries_inv b2"
    by (rule explore_add_unique_string_inv [where I = entries_inv and ok = "\<lambda>s. True",
          OF seg unk b2 i1]) simp_all
  let ?e1 = "if r_original_title r \<noteq> None \<and> r_original_title r \<noteq> Some []
             then (e b2)\<lparr>original_title := r_original_title r\<rparr> else e b2"
  let ?e2 = "if split_buf b2 \<noteq> [] then ?e1\<lparr>e_split := Some (split_buf b2 @ [0])\<rparr> else ?e1"
  have b': "split_buf b' = []" "entries (state b') = entries (state b2) @ [?e2]"
    using assms(1) b1 b2 by (auto simp: explore_add_record_def Let_def)
  have "split_wellformed (e_split ?e2)"
    using i2 by (auto simp: entries_inv_def split_wellformed_def)
  then show ?thesis unfolding b' using i2 by (auto simp: entries_inv_def)
qed

lemma entries_inv_records:
  "add_records b rs = Some (Inr b') \<Longrightarrow> split_buf b = []
   \<Longrightarrow> \<forall>en\<in>set (entries (state b)). split_wellformed (e_split en)
   \<Longrightarrow> \<forall>en\<in>set (entries (state b')). split_wellformed (e_split en)"
proof (induction rs arbitrary: b)
  case Nil
  then show ?case by simp
next
  case (Cons r rs)
  then obtain b1 where b1: "explore_add_record b r = Some (Inr b1)"
      "add_records b1 rs = Some (Inr b')"
    by (auto split: option.splits sum.splits)
  show ?case
    using Cons.IH [OF b1(2)] entries_inv_record [OF b1(1) Cons.prems(2,3)] by blast
qed

lemma build_finish_entries:
  assumes "explore_build_finish st = Some (Inr st')"
  shows "set (entries st') = set (entries st)"
proof -
  obtain st1 where s: "sort_categories st [0..<EXPLORE_CAT_COUNT] = Some (Inr st1)"
    and st': "st' = st1\<lparr>entries := qsort explore_qsort_func_entries (entries st1)\<rparr>"
    using assms by (auto simp: explore_build_finish_def split: option.splits sum.splits)
  have "entries st1 = entries st"
    using sort_categories_result [OF s] by simp
  then show ?thesis using st' by (simp add: set_qsort)
qed

lemma built_entries_wellformed:
  assumes "explore_build_list rs = Some (Inr st)" "en \<in> set (entries st)"
  shows "split_wellformed (e_split en)"
proof -
  obtain b where b: "add_records build_init rs = Some (Inr b)"
    and f: "explore_build_finish (state b) = Some (Inr st)"
    using assms(1) by (auto simp: explore_build_list_def split: option.splits sum.splits)
  have "\<forall>en\<in>set (entries (state b)). split_wellformed (e_split en)"
    by (rule entries_inv_records [OF b]) (simp_all add: build_init_def)
  then show ?thesis using build_finish_entries [OF f] assms(2) by simp
qed

text \<open>
  C3. An entry of a built index passes the levels exactly when, for every level, its
  primary value of the category is the selected value, or the category is a split
  category and the selected value is one of its split values; and it passes a level that
  selects "Unknown" exactly when its primary value of that category is null.
\<close>

theorem entry_satisfies_levels:
  assumes "explore_build_list rs = Some (Inr st)" and "en \<in> set (entries st)"
  shows "entry_passes_levels en ls =
           Inr (list_all (\<lambda>l. l_filter l = e_by en (l_cat l)
                              \<or> (l_use_split l \<and> l_filter l \<in> set (split_values en))) ls)
       \<and> entry_passes_levels en [\<lparr>l_cat = cat, l_use_split = u, l_filter = 0\<rparr>]
           = Inr (e_by en cat = 0)"
proof -
  have wf: "split_wellformed (e_split en)" using assms by (rule built_entries_wellformed)
  show ?thesis
    using entry_passes_levels_list_all [OF wf] unknown_level [OF wf] by blast
qed

theorem entry_satisfies_levels_witness:
  "case explore_build_list
          [\<lparr>r_entry = \<lparr>label = Some ''Game'', crc32 = Some ''0A1B2C3D'', db_name = Some ''db''\<rparr>,
            r_fields = (\<lambda>cat. if cat = 4 then Some ''Action/Adventure'' else None),
            r_systemname = None, r_original_title = None\<rparr>] of
     Some (Inr st) \<Rightarrow>
       entries st \<noteq> []
       \<and> entry_passes_levels (hd (entries st))
            [\<lparr>l_cat = 4, l_use_split = True, l_filter = by_cat st 4 ! 1\<rparr>,
             \<lparr>l_cat = 0, l_use_split = True, l_filter = 0\<rparr>] = Inr True
       \<and> entry_passes_levels (hd (entries st))
            [\<lparr>l_cat = 4, l_use_split = True, l_filter = 0\<rparr>] = Inr False
   | _ \<Rightarrow> False"
proof -
  let ?rs = "[\<lparr>r_entry = \<lparr>label = Some ''Game'', crc32 = Some ''0A1B2C3D'', db_name = Some ''db''\<rparr>,
            r_fields = (\<lambda>cat. if cat = 4 then Some ''Action/Adventure'' else None),
            r_systemname = None, r_original_title = None\<rparr>]"
  have ev: "case explore_build_list ?rs of
              Some (Inr st) \<Rightarrow>
                entries st \<noteq> []
                \<and> list_all (\<lambda>l. l_filter l = e_by (hd (entries st)) (l_cat l)
                                 \<or> (l_use_split l \<and> l_filter l \<in> set (split_values (hd (entries st)))))
                     [\<lparr>l_cat = 4, l_use_split = True, l_filter = by_cat st 4 ! 1\<rparr>,
                      \<lparr>l_cat = 0, l_use_split = True, l_filter = 0\<rparr>]
                \<and> e_by (hd (entries st)) 4 \<noteq> 0
            | _ \<Rightarrow> False"
    by code_simp
  show ?thesis
  proof (cases "explore_build_list ?rs")
    case None
    then show ?thesis using ev by simp
  next
    case (Some r)
    show ?thesis
    proof (cases r)
      case (Inl f)
      then show ?thesis using ev Some by simp
    next
      case (Inr st)
      then have b: "explore_build_list ?rs = Some (Inr st)" using Some by simp
      have ne: "entries st \<noteq> []" using ev b by simp
      then have mem: "hd (entries st) \<in> set (entries st)" by simp
      show ?thesis
        using entry_satisfies_levels [OF b mem,
                of "[\<lparr>l_cat = 4, l_use_split = True, l_filter = by_cat st 4 ! 1\<rparr>,
                     \<lparr>l_cat = 0, l_use_split = True, l_filter = 0\<rparr>]" 4 True]
          ev b
        by simp
    qed
  qed
qed

subsection \<open>The index after a build\<close>

lemma intern_segment_build_inv:
  assumes inv: "build_inv b" and nul: "NUL \<notin> set bytes"
    and i: "intern_segment cat bytes b = Inr (p, b1)"
  shows "build_inv b1 \<and> p \<in> set (by_cat (state b1) cat) \<and> e b1 = e b
         \<and> entries (state b1) = entries (state b)"
proof -
  let ?m = "maps b cat"
  let ?h = "seg_hash bytes"
  let ?st = "state b"
  have hm: "hm_inv ?m" using inv by (simp add: build_inv_def)
  have g: "ex_hashmap32_getnum ?m ?h = Some (case hm_lookup ?m ?h of None \<Rightarrow> 0 | Some v \<Rightarrow> v)"
    by (rule getnum_correct [OF hm])
  have val: "q \<in> set (by_cat ?st c)" if "hm_lookup (maps b c) k = Some q" for c k q
    using inv that unfolding build_inv_def by blast
  have reg: "valid_ptr ?st q \<and> hm_lookup (maps b c) (seg_hash (str (deref ?st q))) = Some q"
    if "q \<in> set (by_cat ?st c)" for c q
    using inv that unfolding build_inv_def by blast
  show ?thesis
  proof (cases "hm_lookup ?m ?h")
    case (Some q)
    have "q \<in> set (by_cat ?st cat)" using val [OF Some] .
    moreover from this have "q \<noteq> 0" using reg [of q cat] by (auto simp: valid_ptr_def)
    ultimately show ?thesis
      using i g Some inv by (auto simp: intern_segment_def Let_def seg_hash_def)
  next
    case None
    let ?p = "length (arena ?st) + 1"
    let ?new = "\<lparr>idx = 0, str = bytes\<rparr>"
    let ?st' = "?st\<lparr>arena := arena ?st @ [?new],
                    by_cat := (by_cat ?st)(cat := by_cat ?st cat @ [?p])\<rparr>"
    obtain m' where m': "ex_hashmap32_setnum ?m ?h ?p = Some m'"
      and p: "p = ?p" and b1: "b1 = b\<lparr>maps := (maps b)(cat := m'), state := ?st'\<rparr>"
      using i g None
      by (auto simp: intern_segment_def Let_def seg_hash_def split: option.splits)
    have hz: "?h \<noteq> 0" by (rule seg_hash_nonzero)
    have s: "hm_inv m'" "hm_lookup m' = (hm_lookup ?m)(?h \<mapsto> ?p)"
      using setnum_returns [OF hm hz m'] by simp_all
    have old: "valid_ptr ?st' q \<and> deref ?st' q = deref ?st q \<and> q \<noteq> ?p" if "valid_ptr ?st q" for q
      using that by (auto simp: valid_ptr_def deref_def nth_append)
    have new: "valid_ptr ?st' ?p \<and> deref ?st' ?p = ?new"
      by (simp add: valid_ptr_def deref_def)
    have fresh: "?p \<notin> set (by_cat ?st c)" for c
      using reg [of ?p c] by (auto simp: valid_ptr_def)
    have c1: "\<forall>c. hm_inv (maps b1 c)"
      using inv s(1) b1 by (simp add: build_inv_def)
    have c2: "\<forall>c k q. hm_lookup (maps b1 c) k = Some q \<longrightarrow> q \<in> set (by_cat (state b1) c)"
    proof (intro allI impI)
      fix c k q assume l: "hm_lookup (maps b1 c) k = Some q"
      show "q \<in> set (by_cat (state b1) c)"
      proof (cases "c = cat")
        case True
        then show ?thesis using l b1 s(2) val [of cat k q] by (auto split: if_splits)
      next
        case False
        then show ?thesis using l b1 val [of c k q] by simp
      qed
    qed
    have c3: "\<forall>c. \<forall>q\<in>set (by_cat (state b1) c).
                valid_ptr (state b1) q
                \<and> hm_lookup (maps b1 c) (seg_hash (str (deref (state b1) q))) = Some q"
    proof (intro allI ballI)
      fix c q assume q: "q \<in> set (by_cat (state b1) c)"
      show "valid_ptr (state b1) q
              \<and> hm_lookup (maps b1 c) (seg_hash (str (deref (state b1) q))) = Some q"
      proof (cases "c = cat \<and> q = ?p")
        case True
        then show ?thesis using b1 new s(2) by simp
      next
        case False
        then have qo: "q \<in> set (by_cat ?st c)" using q b1 by (auto split: if_splits)
        note r = reg [OF qo]
        note o = old [of q]
        have st1: "state b1 = ?st'" using b1 by simp
        show ?thesis
        proof (cases "c = cat")
          case True
          have "seg_hash (str (deref ?st q)) \<noteq> ?h"
            using r None True by auto
          then show ?thesis unfolding st1 using r o True b1 s(2) by simp
        next
          case False
          then show ?thesis unfolding st1 using r o b1 by simp
        qed
      qed
    qed
    have c4: "\<forall>c. distinct (by_cat (state b1) c)"
      using inv fresh b1 by (simp add: build_inv_def)
    have c5: "\<forall>c c'. c \<noteq> c' \<longrightarrow> set (by_cat (state b1) c) \<inter> set (by_cat (state b1) c') = {}"
    proof (intro allI impI)
      fix c c' :: nat assume ne: "c \<noteq> c'"
      have "set (by_cat ?st c) \<inter> set (by_cat ?st c') = {}"
        using inv ne unfolding build_inv_def by blast
      then show "set (by_cat (state b1) c) \<inter> set (by_cat (state b1) c') = {}"
        using fresh [of c] fresh [of c'] ne b1 by auto
    qed
    have c6: "\<forall>c. e_by (e b1) c = 0 \<or> e_by (e b1) c \<in> set (by_cat (state b1) c)"
    proof
      fix c
      have "e_by (e b) c = 0 \<or> e_by (e b) c \<in> set (by_cat ?st c)"
        using inv unfolding build_inv_def by blast
      then show "e_by (e b1) c = 0 \<or> e_by (e b1) c \<in> set (by_cat (state b1) c)"
        using b1 by auto
    qed
    have c7: "\<forall>en\<in>set (entries (state b1)). \<forall>c.
                e_by en c = 0 \<or> e_by en c \<in> set (by_cat (state b1) c)"
    proof (intro ballI allI)
      fix en c assume "en \<in> set (entries (state b1))"
      then have "en \<in> set (entries ?st)" using b1 by simp
      then have "e_by en c = 0 \<or> e_by en c \<in> set (by_cat ?st c)"
        using inv unfolding build_inv_def by blast
      then show "e_by en c = 0 \<or> e_by en c \<in> set (by_cat (state b1) c)"
        using b1 by auto
    qed
    have c8: "\<forall>x\<in>set (arena (state b1)). NUL \<notin> set (str x)"
      using inv nul b1 by (auto simp: build_inv_def)
    have "build_inv b1"
      unfolding build_inv_def using c1 c2 c3 c4 c5 c6 c7 c8 by blast
    then show ?thesis using b1 p by simp
  qed
qed


lemma attach_value_build_inv:
  assumes "build_inv b1" "p \<in> set (by_cat (state b1) cat)" "attach_value cat hb p b1 = Inr b'"
  shows "build_inv b' \<and> entries (state b') = entries (state b1)"
proof (cases "e_by (e b1) cat = 0")
  case True
  then have b': "b' = b1\<lparr>e := (e b1)\<lparr>e_by := (e_by (e b1))(cat := p)\<rparr>\<rparr>"
    using assms(3) by (simp add: attach_value_def)
  show ?thesis using assms(1,2) unfolding b' build_inv_def by simp
next
  case False
  then have b': "b' = b1\<lparr>split_buf := split_buf b1 @ [p]\<rparr>"
    using assms(3) by (simp add: attach_value_def split: if_splits)
  show ?thesis using assms(1) unfolding b' build_inv_def by simp
qed

lemma build_inv_segment:
  assumes "build_inv b" "cstring s" "0 \<le> str0" "segment_added cat hb s str0 b b'"
  shows "build_inv b'"
proof (cases "b' = b")
  case True
  then show ?thesis using assms by simp
next
  case False
  then obtain bytes p b1 where n: "NUL \<notin> set bytes"
      and i: "intern_segment cat bytes b = Inr (p, b1)"
      and a: "attach_value cat hb p b1 = Inr b'"
    using assms(2-4) by (auto simp: segment_added_def)
  show ?thesis
    using intern_segment_build_inv [OF assms(1) n i] attach_value_build_inv [OF _ _ a] by blast
qed

lemma build_inv_unknown:
  "build_inv b \<Longrightarrow> build_inv (b\<lparr>state := (state b)\<lparr>has_unknown := h\<rparr>\<rparr>)"
  by (simp add: build_inv_def valid_ptr_def deref_def)

lemma build_inv_record:
  assumes r: "explore_add_record b r = Some (Inr b')" and inv: "build_inv b"
    and ok: "list_all (\<lambda>c. case r_fields r c of None \<Rightarrow> True | Some s \<Rightarrow> cstring s)
               [0..<EXPLORE_CAT_COUNT]"
        "case r_systemname r of None \<Rightarrow> True | Some s \<Rightarrow> cstring s"
  shows "build_inv b'"
proof -
  let ?e0 = "\<lparr>playlist_entry = r_entry r, e_by = (\<lambda>cat. 0), e_split = None,
              original_title = None\<rparr>"
  obtain b1 b2 where b1: "add_fields (b\<lparr>e := ?e0\<rparr>) (r_fields r) [0..<EXPLORE_CAT_COUNT] = Some (Inr b1)"
    and b2: "explore_add_unique_string b1 EXPLORE_BY_SYSTEM (r_systemname r) False = Some (Inr b2)"
    using r by (auto simp: explore_add_record_def Let_def split: option.splits sum.splits)
  have i0: "build_inv (b\<lparr>e := ?e0\<rparr>)" using inv by (simp add: build_inv_def)
  have i1: "build_inv b1"
    by (rule add_fields_inv [where I = build_inv and ok = cstring,
          OF build_inv_segment build_inv_unknown b1 i0])
       (use ok(1) in \<open>auto simp: list_all_iff\<close>)
  have i2: "build_inv b2"
    by (rule explore_add_unique_string_inv [where I = build_inv and ok = cstring,
          OF build_inv_segment build_inv_unknown b2 i1])
       (use ok(2) in auto)
  let ?e1 = "if r_original_title r \<noteq> None \<and> r_original_title r \<noteq> Some []
             then (e b2)\<lparr>original_title := r_original_title r\<rparr> else e b2"
  let ?e2 = "if split_buf b2 \<noteq> [] then ?e1\<lparr>e_split := Some (split_buf b2 @ [0])\<rparr> else ?e1"
  have b': "maps b' = maps b2" "arena (state b') = arena (state b2)"
      "by_cat (state b') = by_cat (state b2)" "e b' = ?e2"
      "entries (state b') = entries (state b2) @ [?e2]"
    using r b1 b2 by (auto simp: explore_add_record_def Let_def)
  have e2: "e_by ?e2 = e_by (e b2)" by simp
  show ?thesis
    using i2 unfolding build_inv_def b' valid_ptr_def deref_def
    by (simp only: e2 set_append ball_Un list.set ball_simps) blast
qed

lemma build_inv_records:
  "add_records b rs = Some (Inr b') \<Longrightarrow> build_inv b \<Longrightarrow> records_ok rs \<Longrightarrow> build_inv b'"
proof (induction rs arbitrary: b)
  case Nil
  then show ?case by simp
next
  case (Cons r rs)
  then obtain b1 where b1: "explore_add_record b r = Some (Inr b1)"
      "add_records b1 rs = Some (Inr b')"
    by (auto split: option.splits sum.splits)
  have "build_inv b1"
    using build_inv_record [OF b1(1) Cons.prems(2)] Cons.prems(3) by (simp add: records_ok_def)
  then show ?case using Cons.IH [OF b1(2)] Cons.prems(3) by (simp add: records_ok_def)
qed

lemma build_inv_init: "build_inv build_init"
  by (simp add: build_inv_def build_init_def hm_inv_zero hm_lookup_zero)

lemma uchar_inj: "uchar a = uchar b \<longleftrightarrow> a = b"
  by (simp add: uchar_def)

lemma uchar_lt_256: "uchar c < 256"
  by (simp add: uchar_def)

lemma uchar_NUL: "uchar c = 0 \<longleftrightarrow> c = NUL"
proof -
  have "uchar NUL = 0" by (simp add: uchar_def NUL_def)
  then show ?thesis using uchar_inj [of c NUL] by auto
qed

lemma uchar_tolower: "uchar (tolower c) = (if 65 \<le> uchar c \<and> uchar c \<le> 90 then uchar c + 32 else uchar c)"
  by (simp add: tolower_def uchar_def)

lemma tolower_NUL: "tolower c = NUL \<longleftrightarrow> c = NUL"
  using uchar_tolower [of c] uchar_NUL [of "tolower c"] uchar_NUL [of c] by (auto split: if_splits)

lemma strcasecmp_zero:
  "strcasecmp a b = 0 \<Longrightarrow> NUL \<notin> set a \<Longrightarrow> NUL \<notin> set b \<Longrightarrow> map tolower a = map tolower b"
proof (induction a b rule: strcasecmp.induct)
  case 1
  show ?case by simp
next
  case (2 b bs)
  then show ?case using uchar_NUL [of "tolower b"] tolower_NUL [of b] by auto
next
  case (3 a as)
  then show ?case using uchar_NUL [of "tolower a"] tolower_NUL [of a] by auto
next
  case (4 a as b bs)
  show ?case
  proof (cases "tolower a = tolower b")
    case True
    then show ?thesis using 4 by simp
  next
    case False
    then have "uchar (tolower a) \<noteq> uchar (tolower b)" by (simp add: uchar_inj)
    then show ?thesis using "4.prems"(1) False by simp
  qed
qed

lemma upper_or:
  assumes "65 \<le> n" "n \<le> 90"
  shows "(of_nat n :: uint32) OR 0x20 = of_nat (n + 32)"
proof -
  have "list_all (\<lambda>n. (of_nat n :: uint32) OR 0x20 = of_nat (n + 32)) [65..<91]"
    by code_simp
  then have "\<forall>n\<in>set [65..<91]. (of_nat n :: uint32) OR 0x20 = of_nat (n + 32)"
    unfolding list_all_iff .
  moreover have "n \<in> {65..<91}" using assms by simp
  then have "n \<in> set [65..<91]" by (simp only: set_upt)
  ultimately show ?thesis by blast
qed

lemma nocase_filtered_step_tolower:
  "nocase_filtered_step 48 255 h (tolower c) = nocase_filtered_step 48 255 h c"
proof (cases "65 \<le> uchar c \<and> uchar c \<le> 90")
  case True
  have u: "uchar (tolower c) = uchar c + 32" using True by (simp add: uchar_tolower)
  have "(of_char c :: uint32) = of_nat (uchar c)"
    by (simp add: uchar_def of_nat_of_char)
  moreover have "(of_char (tolower c) :: uint32) = of_nat (uchar (tolower c))"
    by (simp add: uchar_def of_nat_of_char)
  ultimately have "(of_char c :: uint32) OR 0x20 = of_char (tolower c)"
    using upper_or [of "uchar c"] True u by simp
  then show ?thesis using True u by (simp add: nocase_filtered_step_def)
next
  case False
  then have "tolower c = c" by (auto simp: tolower_def)
  then show ?thesis by simp
qed

lemma foldl_nocase_tolower:
  "foldl (nocase_filtered_step 48 255) h (map tolower s) = foldl (nocase_filtered_step 48 255) h s"
  by (induction s arbitrary: h) (simp_all add: nocase_filtered_step_tolower)

lemma seg_hash_tolower: "map tolower a = map tolower b \<Longrightarrow> seg_hash a = seg_hash b"
  unfolding seg_hash_def ex_hash32_nocase_filtered_def
  using foldl_nocase_tolower [of _ a] foldl_nocase_tolower [of _ b] by metis

lemma explore_qsort_func_zero:
  assumes "explore_qsort_func a b = 0" "NUL \<notin> set a" "NUL \<notin> set b"
  shows "seg_hash a = seg_hash b"
proof -
  have "strcasecmp a b = 0"
    using assms(1) by (auto simp: explore_qsort_func_def split: if_splits)
  then show ?thesis using strcasecmp_zero assms(2,3) seg_hash_tolower by blast
qed

lemma strcasecmp_trans:
  "NUL \<notin> set a \<Longrightarrow> NUL \<notin> set b \<Longrightarrow> NUL \<notin> set c
   \<Longrightarrow> strcasecmp a b \<le> 0 \<Longrightarrow> strcasecmp b c \<le> 0 \<Longrightarrow> strcasecmp a c \<le> 0"
proof (induction a arbitrary: b c)
  case Nil
  show ?case by (cases c) simp_all
next
  case (Cons x as)
  have pos: "0 < uchar (tolower z)" if "z \<noteq> NUL" for z
    using that uchar_NUL [of "tolower z"] tolower_NUL [of z] by auto
  obtain y bs where b: "b = y # bs"
    using Cons.prems(1,4) pos [of x] by (cases b) auto
  obtain z cs where c: "c = z # cs"
    using Cons.prems(2,5) b pos [of y] by (cases c) auto
  have xy: "(tolower x = tolower y \<and> strcasecmp as bs \<le> 0) \<or> uchar (tolower x) < uchar (tolower y)"
    using Cons.prems(4) b uchar_inj [of "tolower x" "tolower y"] by (auto split: if_splits)
  have yz: "(tolower y = tolower z \<and> strcasecmp bs cs \<le> 0) \<or> uchar (tolower y) < uchar (tolower z)"
    using Cons.prems(5) b c uchar_inj [of "tolower y" "tolower z"] by (auto split: if_splits)
  show ?case
  proof (cases "tolower x = tolower y \<and> tolower y = tolower z")
    case True
    then have "strcasecmp as cs \<le> 0"
      using Cons.IH [of bs cs] Cons.prems(1-3) xy yz b c by auto
    then show ?thesis using True c by simp
  next
    case False
    then have "uchar (tolower x) < uchar (tolower z)" using xy yz by auto
    then show ?thesis using c by auto
  qed
qed

lemma explore_qsort_func_trans:
  assumes "NUL \<notin> set a" "NUL \<notin> set b" "NUL \<notin> set c"
    and "explore_qsort_func a b \<le> 0" "explore_qsort_func b c \<le> 0"
  shows "explore_qsort_func a c \<le> 0"
  using assms strcasecmp_trans [OF assms(1-3)]
  unfolding explore_qsort_func_le by auto

lemma explore_qsort_func_strict_trans:
  assumes "NUL \<notin> set a" "NUL \<notin> set b" "NUL \<notin> set c"
    and "explore_qsort_func a b < 0" "explore_qsort_func b c < 0"
  shows "explore_qsort_func a c < 0"
proof (rule ccontr)
  assume "\<not> explore_qsort_func a c < 0"
  then have "explore_qsort_func c a \<le> 0" using explore_qsort_func_neg [of a c] by simp
  then have "explore_qsort_func c b \<le> 0"
    using explore_qsort_func_trans [OF assms(3,1,2)] assms(4) by simp
  then show False using explore_qsort_func_neg [of b c] assms(5) by simp
qed

lemma successively_strict:
  assumes tot: "\<And>a b. a \<in> A \<Longrightarrow> b \<in> A \<Longrightarrow> a \<noteq> b \<Longrightarrow> cmp a b \<noteq> (0::int)"
    and tr: "\<And>a b c. a \<in> A \<Longrightarrow> b \<in> A \<Longrightarrow> c \<in> A \<Longrightarrow> cmp a b < 0 \<Longrightarrow> cmp b c < 0 \<Longrightarrow> cmp a c < 0"
  shows "successively (\<lambda>a b. cmp a b \<le> 0) xs \<Longrightarrow> distinct xs \<Longrightarrow> set xs \<subseteq> A
         \<Longrightarrow> sorted_wrt (\<lambda>a b. cmp a b < 0) xs"
proof (induction xs)
  case Nil
  show ?case by simp
next
  case (Cons x xs)
  have "successively (\<lambda>a b. cmp a b \<le> 0) xs"
    using Cons.prems(1) by (cases xs) simp_all
  then have s: "sorted_wrt (\<lambda>a b. cmp a b < 0) xs"
    using Cons.IH Cons.prems(2,3) by simp
  show ?case
  proof (cases xs)
    case Nil
    then show ?thesis by simp
  next
    case (Cons y ys)
    have "cmp x y \<le> 0" using Cons.prems(1) Cons by simp
    moreover have "cmp x y \<noteq> 0" using tot [of x y] Cons.prems(2,3) Cons by auto
    ultimately have xy: "cmp x y < 0" by simp
    have "cmp x z < 0" if "z \<in> set xs" for z
    proof (cases "z = y")
      case True
      then show ?thesis using xy by simp
    next
      case False
      then have "z \<in> set ys" using that Cons by simp
      then have "cmp y z < 0" using s Cons by simp
      then show ?thesis using tr [of x y z] xy Cons.prems(3) that Cons by auto
    qed
    then show ?thesis using s by simp
  qed
qed

lemma distinct_qsort_insert: "distinct (qsort_insert cmp x ys) \<longleftrightarrow> x \<notin> set ys \<and> distinct ys"
  by (induction ys) (auto simp: set_qsort_insert)

lemma distinct_qsort: "distinct (qsort cmp xs) \<longleftrightarrow> distinct xs"
  unfolding qsort_def
  by (induction xs) (simp_all add: distinct_qsort_insert set_qsort [unfolded qsort_def])

lemma assign_idx_nth:
  "distinct ps \<Longrightarrow> \<forall>p\<in>set ps. 0 < p \<and> p \<le> length ar
   \<Longrightarrow> length (assign_idx ar ps k) = length ar
       \<and> (\<forall>i<length ps. idx (assign_idx ar ps k ! (ps ! i - 1)) = of_nat (k + i))
       \<and> (\<forall>j<length ar. Suc j \<notin> set ps \<longrightarrow> assign_idx ar ps k ! j = ar ! j)"
proof (induction ps arbitrary: ar k)
  case Nil
  show ?case by simp
next
  case (Cons p ps)
  let ?ar = "ar[p - 1 := (ar ! (p - 1))\<lparr>idx := of_nat k\<rparr>]"
  have p: "0 < p" "p \<le> length ar" "p \<notin> set ps" using Cons.prems by simp_all
  have ih: "length (assign_idx ?ar ps (k + 1)) = length ar"
    "\<forall>i<length ps. idx (assign_idx ?ar ps (k + 1) ! (ps ! i - 1)) = of_nat (k + 1 + i)"
    "\<forall>j<length ar. Suc j \<notin> set ps \<longrightarrow> assign_idx ?ar ps (k + 1) ! j = ?ar ! j"
    using Cons.IH [of ?ar "k + 1"] Cons.prems by simp_all
  have first: "idx (assign_idx ?ar ps (k + 1) ! (p - 1)) = of_nat k"
    using ih(3) p by simp
  have a: "\<forall>i<length (p # ps). idx (assign_idx ar (p # ps) k ! ((p # ps) ! i - 1)) = of_nat (k + i)"
  proof (intro allI impI)
    fix i assume "i < length (p # ps)"
    then show "idx (assign_idx ar (p # ps) k ! ((p # ps) ! i - 1)) = of_nat (k + i)"
      using first ih(2) by (cases i) simp_all
  qed
  have b: "\<forall>j<length ar. Suc j \<notin> set (p # ps) \<longrightarrow> assign_idx ar (p # ps) k ! j = ar ! j"
  proof (intro allI impI)
    fix j assume j: "j < length ar" "Suc j \<notin> set (p # ps)"
    then have "j \<noteq> p - 1" using p by auto
    then show "assign_idx ar (p # ps) k ! j = ar ! j" using ih(3) j by simp
  qed
  show ?case using ih(1) a b by simp
qed

lemma sort_category_idx:
  assumes s: "sort_category st c = Some (Inr st')" and d: "distinct (by_cat st c)"
  shows "\<forall>i<length (by_cat st' c). idx (deref st' (by_cat st' c ! i)) = of_nat i"
    and "\<forall>p. valid_ptr st p \<longrightarrow> p \<notin> set (by_cat st c) \<longrightarrow> deref st' p = deref st p"
proof -
  let ?sorted = "qsort (explore_qsort_func_strings st) (by_cat st c)"
  have v: "list_all (valid_ptr st) (by_cat st c)"
    using s by (auto simp: sort_category_def split: if_splits)
  have st': "arena st' = assign_idx (arena st) ?sorted 0" "by_cat st' c = ?sorted"
    using s by (auto simp: sort_category_def Let_def split: if_splits)
  have ds: "distinct ?sorted" using d by (simp add: distinct_qsort)
  have vs: "\<forall>p\<in>set ?sorted. 0 < p \<and> p \<le> length (arena st)"
    using v by (simp add: set_qsort list_all_iff valid_ptr_def)
  note a = assign_idx_nth [OF ds vs, of 0]
  show "\<forall>i<length (by_cat st' c). idx (deref st' (by_cat st' c ! i)) = of_nat i"
    using a unfolding st' deref_def by simp
  show "\<forall>p. valid_ptr st p \<longrightarrow> p \<notin> set (by_cat st c) \<longrightarrow> deref st' p = deref st p"
  proof (intro allI impI)
    fix p assume p: "valid_ptr st p" "p \<notin> set (by_cat st c)"
    then have "p - 1 < length (arena st)" "Suc (p - 1) \<notin> set ?sorted"
      by (auto simp: valid_ptr_def set_qsort)
    then show "deref st' p = deref st p" using a unfolding st' deref_def by simp
  qed
qed

lemma sort_categories_idx:
  assumes "sort_categories st cats = Some (Inr st')" "distinct cats"
    and "\<forall>c. distinct (by_cat st c)"
    and "\<forall>c c'. c \<noteq> c' \<longrightarrow> set (by_cat st c) \<inter> set (by_cat st c') = {}"
    and "\<forall>c. list_all (valid_ptr st) (by_cat st c)"
  shows "(\<forall>c. set (by_cat st' c) = set (by_cat st c) \<and> distinct (by_cat st' c))
       \<and> (\<forall>c\<in>set cats. \<forall>i<length (by_cat st' c). idx (deref st' (by_cat st' c ! i)) = of_nat i)
       \<and> (\<forall>p. valid_ptr st p \<longrightarrow> (\<forall>c\<in>set cats. p \<notin> set (by_cat st c))
              \<longrightarrow> deref st' p = deref st p)"
  using assms
proof (induction cats arbitrary: st)
  case Nil
  then show ?case by simp
next
  case (Cons c cats)
  from Cons.prems(1) obtain st1 where st1: "sort_category st c = Some (Inr st1)"
    "sort_categories st1 cats = Some (Inr st')"
    by (auto split: option.splits sum.splits)
  note r = sort_category_result [OF st1(1)]
  have dc: "distinct cats" "c \<notin> set cats" using Cons.prems(2) by simp_all
  have d: "distinct (by_cat st c)" using Cons.prems(3) by simp
  note x = sort_category_idx [OF st1(1) d]
  have vp: "valid_ptr st1 = valid_ptr st" by (rule valid_ptr_cong [OF r(1)])
  have sets: "set (by_cat st1 c') = set (by_cat st c')" for c'
    using r(2) by (simp add: set_qsort)
  have dist: "distinct (by_cat st1 c')" for c'
    using r(2) Cons.prems(3) by (simp add: distinct_qsort)
  have p3: "\<forall>c. distinct (by_cat st1 c)" using dist by simp
  have p4: "\<forall>c c'. c \<noteq> c' \<longrightarrow> set (by_cat st1 c) \<inter> set (by_cat st1 c') = {}"
    using Cons.prems(4) sets by simp
  have p5: "\<forall>c. list_all (valid_ptr st1) (by_cat st1 c)"
    using Cons.prems(5) sets vp by (simp add: list_all_iff)
  note ih = Cons.IH [OF st1(2) dc(1) p3 p4 p5]
  note ih1 = ih [THEN conjunct1, rule_format]
  note ih2 = ih [THEN conjunct2, THEN conjunct1, rule_format]
  note ih3 = ih [THEN conjunct2, THEN conjunct2, rule_format]
  have same: "by_cat st' c = by_cat st1 c"
    using sort_categories_result [OF st1(2) dc(1)] dc(2) by simp
  have keep: "deref st' p = deref st1 p" if "p \<in> set (by_cat st1 c)" for p
  proof -
    have "valid_ptr st1 p" using p5 that by (simp add: list_all_iff)
    moreover have "p \<notin> set (by_cat st1 c')" if "c' \<in> set cats" for c'
    proof -
      have "c \<noteq> c'" using that dc(2) by auto
      then have "set (by_cat st1 c) \<inter> set (by_cat st1 c') = {}"
        using p4 [rule_format, of c c'] by simp
      then show ?thesis using \<open>p \<in> set (by_cat st1 c)\<close> by auto
    qed
    ultimately show ?thesis by (intro ih3)
  qed
  have c1: "\<forall>c. set (by_cat st' c) = set (by_cat st c) \<and> distinct (by_cat st' c)"
    using ih1 sets by simp
  have c2: "\<forall>c'\<in>set (c # cats). \<forall>i<length (by_cat st' c').
              idx (deref st' (by_cat st' c' ! i)) = of_nat i"
  proof (intro ballI allI impI)
    fix c' i assume c': "c' \<in> set (c # cats)" and i: "i < length (by_cat st' c')"
    show "idx (deref st' (by_cat st' c' ! i)) = of_nat i"
    proof (cases "c' = c")
      case True
      have "by_cat st1 c ! i \<in> set (by_cat st1 c)" using i True same by simp
      then show ?thesis using keep x(1) i True same by simp
    next
      case False
      then have "c' \<in> set cats" using c' by simp
      then show ?thesis using ih2 i by blast
    qed
  qed
  have c3: "\<forall>p. valid_ptr st p \<longrightarrow> (\<forall>c'\<in>set (c # cats). p \<notin> set (by_cat st c'))
              \<longrightarrow> deref st' p = deref st p"
  proof (intro allI impI)
    fix p assume p: "valid_ptr st p" "\<forall>c'\<in>set (c # cats). p \<notin> set (by_cat st c')"
    have "deref st1 p = deref st p" using x(2) p by simp
    moreover have "deref st' p = deref st1 p"
    proof (rule ih3)
      show "valid_ptr st1 p" using p(1) vp by simp
      show "c' \<in> set cats \<Longrightarrow> p \<notin> set (by_cat st1 c')" for c' using p(2) sets by simp
    qed
    ultimately show "deref st' p = deref st p" by simp
  qed
  show ?case using c1 c2 c3 by blast
qed

lemma by_cat_length:
  assumes inv: "build_inv b"
  shows "length (by_cat (state b) c) \<le> 2 ^ 30"
proof (cases "by_cat (state b) c = []")
  case True
  then show ?thesis by simp
next
  case False
  let ?ps = "by_cat (state b) c"
  let ?m = "maps b c"
  let ?key = "\<lambda>p. seg_hash (str (deref (state b) p))"
  have hm: "hm_inv ?m" using inv by (simp add: build_inv_def)
  have reg: "hm_lookup ?m (?key p) = Some p" if "p \<in> set ?ps" for p
    using inv that unfolding build_inv_def by blast
  obtain p where "p \<in> set ?ps" using False by (cases ?ps) auto
  then have "hm_lookup ?m (?key p) \<noteq> None" using reg by simp
  moreover have "hm_lookup ?m k = None" if "keys ?m = []" for k
    using that by (simp add: hm_lookup_def)
  ultimately have "keys ?m \<noteq> []" by metis
  then have t: "tbl_inv ?m" using hm by (auto simp: hm_inv_def)
  have fin: "finite (dom (hm_lookup ?m))"
  proof (rule finite_subset)
    show "dom (hm_lookup ?m) \<subseteq> set (keys ?m)"
      by (auto simp: hm_lookup_def dom_def split: if_splits dest: map_of_SomeD set_zip_leftD)
    show "finite (set (keys ?m))" by simp
  qed
  have inj: "inj_on ?key (set ?ps)"
  proof (rule inj_onI)
    fix p q assume pq: "p \<in> set ?ps" "q \<in> set ?ps" and eq: "?key p = ?key q"
    have "Some p = hm_lookup ?m (?key p)" using reg [OF pq(1)] by simp
    also have "\<dots> = hm_lookup ?m (?key q)" by (simp only: eq)
    also have "\<dots> = Some q" using reg [OF pq(2)] by simp
    finally show "p = q" by simp
  qed
  have "?key ` set ?ps \<subseteq> dom (hm_lookup ?m)" using reg by (auto simp: dom_def)
  then have "card (set ?ps) \<le> card (dom (hm_lookup ?m))"
    using card_inj_on_le [OF inj _ fin] by simp
  also have "\<dots> = live ?m" using live_card [OF t] by simp
  also have "\<dots> \<le> 2 ^ 30" using hm_inv_len [OF hm] by simp
  finally have "card (set ?ps) \<le> 2 ^ 30" .
  moreover have "distinct ?ps" using inv by (simp add: build_inv_def)
  ultimately show ?thesis by (simp add: distinct_card)
qed

lemma index_inv_find_string: "index_inv (st\<lparr>find_string := f\<rparr>) cat = index_inv st cat"
proof -
  have "valid_ptr (st\<lparr>find_string := f\<rparr>) = valid_ptr st"
    by (simp add: valid_ptr_def fun_eq_iff)
  then show ?thesis
    by (simp add: index_inv_def deref_def explore_qsort_func_strings_def)
qed

lemma build_index_inv:
  assumes build: "explore_build_list rs = Some (Inr st)" and ok: "records_ok rs"
    and cat: "cat < EXPLORE_CAT_COUNT"
  shows "index_inv st cat"
proof -
  from build obtain b st0 where b: "add_records build_init rs = Some (Inr b)"
    and st0: "sort_categories (state b) [0..<EXPLORE_CAT_COUNT] = Some (Inr st0)"
    and st: "st = st0\<lparr>entries := qsort explore_qsort_func_entries (entries st0)\<rparr>"
    by (auto simp: explore_build_list_def explore_build_finish_def
        split: option.splits sum.splits)
  let ?s = "state b"
  let ?S = "map str (arena ?s)"
  let ?ps = "by_cat st0 cat"
  have inv: "build_inv b" by (rule build_inv_records [OF b build_inv_init ok])
  have reg: "valid_ptr ?s p \<and> hm_lookup (maps b c) (seg_hash (str (deref ?s p))) = Some p"
    if "p \<in> set (by_cat ?s c)" for c p
    using inv that unfolding build_inv_def by blast
  have w1: "\<forall>c. distinct (by_cat ?s c)" using inv by (simp add: build_inv_def)
  have w2: "\<forall>c c'. c \<noteq> c' \<longrightarrow> set (by_cat ?s c) \<inter> set (by_cat ?s c') = {}"
    using inv unfolding build_inv_def by blast
  have w3: "\<forall>c. list_all (valid_ptr ?s) (by_cat ?s c)"
    using reg by (simp add: list_all_iff)
  have nulfree: "NUL \<notin> set (str x)" if "x \<in> set (arena ?s)" for x
    using inv that unfolding build_inv_def by blast
  have dc: "distinct [0..<EXPLORE_CAT_COUNT]" by simp
  have cs: "cat \<in> set [0..<EXPLORE_CAT_COUNT]" using cat by simp
  note r = sort_categories_result [OF st0 dc]
  note x = sort_categories_idx [OF st0 dc w1 w2 w3]
  have S: "map str (arena st0) = ?S" using r by simp
  have vp: "valid_ptr st0 = valid_ptr ?s" by (rule valid_ptr_cong [OF S])
  have sets: "set ?ps = set (by_cat ?s cat)" and dist: "distinct ?ps"
    using x by simp_all
  have valid: "list_all (valid_ptr st0) ?ps"
    using r cs vp by simp
  have v: "valid_ptr st0 p" if "p \<in> set ?ps" for p
    using valid that by (simp add: list_all_iff)
  have strs: "str (deref st0 p) = str (deref ?s p)" if "p \<in> set ?ps" for p
    using deref_str [of st0 p] deref_str [of ?s p] v [OF that] vp S by simp
  have nf: "NUL \<notin> set (str (deref st0 p))" if "p \<in> set ?ps" for p
  proof -
    have "valid_ptr ?s p" using v [OF that] vp by simp
    then have "p - 1 < length (arena ?s)" by (auto simp: valid_ptr_def)
    then have "deref ?s p \<in> set (arena ?s)" unfolding deref_def by (rule nth_mem)
    then show ?thesis using nulfree strs [OF that] by simp
  qed
  have cmp: "cmp_strings ?S p q = explore_qsort_func_strings st0 p q"
    if "p \<in> set ?ps" "q \<in> set ?ps" for p q
    using deref_str [OF v [OF that(1)]] deref_str [OF v [OF that(2)]] S
    by (simp add: cmp_strings_def explore_qsort_func_strings_def)
  have succ: "successively (\<lambda>p q. explore_qsort_func_strings st0 p q \<le> 0) ?ps"
  proof -
    have "successively (\<lambda>p q. cmp_strings ?S p q \<le> 0) ?ps" using r cs by simp
    then show ?thesis
      by (rule successively_mono) (simp add: cmp)
  qed
  have sorted: "sorted_wrt (\<lambda>p q. explore_qsort_func_strings st0 p q < 0) ?ps"
  proof (rule successively_strict [where A = "set ?ps", OF _ _ succ dist])
    fix p q assume p: "p \<in> set ?ps" and q: "q \<in> set ?ps" and ne: "p \<noteq> q"
    show "explore_qsort_func_strings st0 p q \<noteq> 0"
    proof
      assume "explore_qsort_func_strings st0 p q = 0"
      then have "seg_hash (str (deref st0 p)) = seg_hash (str (deref st0 q))"
        unfolding explore_qsort_func_strings_def
        using explore_qsort_func_zero nf [OF p] nf [OF q] by blast
      then have eq: "seg_hash (str (deref ?s p)) = seg_hash (str (deref ?s q))"
        using strs p q by simp
      have "Some p = hm_lookup (maps b cat) (seg_hash (str (deref ?s p)))"
        using reg [of p cat] p sets by simp
      also have "\<dots> = hm_lookup (maps b cat) (seg_hash (str (deref ?s q)))"
        by (simp only: eq)
      also have "\<dots> = Some q" using reg [of q cat] q sets by simp
      finally show False using ne by simp
    qed
  next
    fix p q u assume "p \<in> set ?ps" "q \<in> set ?ps" "u \<in> set ?ps"
      and "explore_qsort_func_strings st0 p q < 0" "explore_qsort_func_strings st0 q u < 0"
    then show "explore_qsort_func_strings st0 p u < 0"
      unfolding explore_qsort_func_strings_def
      using explore_qsort_func_strict_trans nf by blast
  qed simp
  have idx: "list_all (\<lambda>i. idx (deref st0 (?ps ! i)) = of_nat i) [0..<length ?ps]"
    using x cs by (simp add: list_all_iff)
  have len: "int (length ?ps) \<le> 2 ^ 30"
  proof -
    have "length ?ps = length (by_cat ?s cat)"
      using sets dist w1 by (metis distinct_card)
    then have "length ?ps \<le> 2 ^ 30" using by_cat_length [OF inv, of cat] by simp
    then have "int (length ?ps) \<le> int (2 ^ 30)" by (simp only: of_nat_le_iff)
    then show ?thesis by simp
  qed
  have ents: "list_all (\<lambda>en. split_wellformed (e_split en)
                    \<and> (e_by en cat = 0 \<or> e_by en cat \<in> set ?ps)) (entries st)"
  proof -
    have "split_wellformed (e_split en) \<and> (e_by en cat = 0 \<or> e_by en cat \<in> set ?ps)"
      if "en \<in> set (entries st)" for en
    proof -
      have "en \<in> set (entries ?s)" using that st r by (simp add: set_qsort)
      then have "e_by en cat = 0 \<or> e_by en cat \<in> set (by_cat ?s cat)"
        using inv unfolding build_inv_def by blast
      then show ?thesis using built_entries_wellformed [OF build that] sets by simp
    qed
    then show ?thesis by (simp add: list_all_iff)
  qed
  have e1: "valid_ptr st = valid_ptr st0" "by_cat st = by_cat st0" "deref st = deref st0"
      "explore_qsort_func_strings st = explore_qsort_func_strings st0"
    unfolding st
    by (simp_all add: fun_eq_iff valid_ptr_def deref_def explore_qsort_func_strings_def)
  show ?thesis
    unfolding index_inv_def e1 using valid idx sorted len ents by simp
qed

subsection \<open>The distinct values of a category\<close>

lemma set_first_seen:
  "set (first_seen st ls cat ens seen)
     = set seen \<union> {p. p \<noteq> 0 \<and> (\<exists>en\<in>set ens. entry_passes st ls en \<and> e_by en cat = p)}"
  by (induction ens arbitrary: seen) auto

lemma distinct_first_seen: "distinct seen \<Longrightarrow> distinct (first_seen st ls cat ens seen)"
  by (induction ens arbitrary: seen) auto

lemma emit_entry_seen:
  assumes valid: "list_all (valid_ptr st) ps"
    and inj: "inj_on (\<lambda>p. idx (deref st p)) (set ps)"
    and nz: "\<forall>p\<in>set ps. idx (deref st p) + 1 \<noteq> 0"
    and small: "length ps \<le> 2 ^ 30"
    and en: "e_by en cat = 0 \<or> e_by en cat \<in> set ps"
    and acc: "seen_inv sl st ps acc seen"
  shows "\<exists>acc'. emit_entry sl st (Some cat) en k acc = Inr acc'
           \<and> seen_inv sl st ps acc'
                (if e_by en cat \<noteq> 0 \<and> e_by en cat \<notin> set seen then seen @ [e_by en cat] else seen)
           \<and> filtered_category_have_unknown acc'
               = (filtered_category_have_unknown acc \<or> e_by en cat = 0)"
proof (cases "e_by en cat = 0")
  case True
  then show ?thesis using acc by (simp add: emit_entry_def seen_inv_def Let_def)
next
  case False
  let ?s = "e_by en cat"
  let ?m = "map_filtered_category acc"
  let ?k = "idx (deref st ?s) + 1"
  have s: "?s \<in> set ps" using en False by simp
  then have v: "valid_ptr st ?s" using valid by (simp add: list_all_iff)
  have hm: "hm_inv ?m" using acc by (simp add: seen_inv_def)
  have lk: "hm_lookup ?m ?k = (if ?s \<in> set seen then Some 1 else None)"
    using acc s by (simp add: seen_inv_def)
  have g: "ex_hashmap32_getnum ?m ?k = Some (if ?s \<in> set seen then 1 else 0)"
    unfolding getnum_correct [OF hm] lk by simp
  show ?thesis
  proof (cases "?s \<in> set seen")
    case True
    then show ?thesis using False v g acc by (simp add: emit_entry_def Let_def)
  next
    case notin: False
    have ls: "length seen < length ps"
    proof -
      have "set seen \<subset> set ps" using acc s notin by (auto simp: seen_inv_def)
      then have "card (set seen) < card (set ps)" by (intro psubset_card_mono) simp_all
      moreover have "length seen = card (set seen)"
        using acc by (simp add: seen_inv_def distinct_card)
      moreover have "card (set ps) \<le> length ps" by (rule card_length)
      ultimately show ?thesis by simp
    qed
    have sm: "unat (len ?m) < 2 ^ 30" using acc ls small by (simp add: seen_inv_def)
    have k: "?k \<noteq> 0" using nz s by blast
    obtain m' where m': "ex_hashmap32_setnum ?m ?k 1 = Some m'" "hm_inv m'"
        "hm_lookup m' = (hm_lookup ?m)(?k \<mapsto> 1)" "unat (len m') \<le> unat (len ?m) + 1"
      using setnum_correct [OF hm k sm, of 1] by blast
    let ?acc' = "acc\<lparr>menu_list := menu_list acc @ [value_item sl st ?s],
                     map_filtered_category := m'\<rparr>"
    have e: "emit_entry sl st (Some cat) en k acc = Inr ?acc'"
      using False v g notin m'(1) by (simp add: emit_entry_def value_item_def Let_def)
    have look: "\<forall>p\<in>set ps. hm_lookup m' (idx (deref st p) + 1)
                   = (if p \<in> set (seen @ [?s]) then Some 1 else None)"
    proof
      fix p assume p: "p \<in> set ps"
      have eq: "idx (deref st p) + 1 = ?k \<longleftrightarrow> p = ?s"
        using inj p s by (auto dest: inj_onD)
      have "hm_lookup ?m (idx (deref st p) + 1) = (if p \<in> set seen then Some 1 else None)"
        using acc p by (simp add: seen_inv_def)
      then show "hm_lookup m' (idx (deref st p) + 1)
                   = (if p \<in> set (seen @ [?s]) then Some 1 else None)"
        unfolding m'(3) using eq by auto
    qed
    have "seen_inv sl st ps ?acc' (seen @ [?s])"
      unfolding seen_inv_def using acc m'(2) m'(4) look notin s
      by (simp add: seen_inv_def)
    then show ?thesis using e False notin by simp
  qed
qed

lemma filter_entries_seen:
  assumes valid: "list_all (valid_ptr st) ps"
    and inj: "inj_on (\<lambda>p. idx (deref st p)) (set ps)"
    and nz: "\<forall>p\<in>set ps. idx (deref st p) + 1 \<noteq> 0"
    and small: "length ps \<le> 2 ^ 30"
    and ens: "\<forall>en\<in>set ens. split_wellformed (e_split en)
                 \<and> (e_by en cat = 0 \<or> e_by en cat \<in> set ps)"
    and acc: "seen_inv sl st ps acc seen"
  shows "\<exists>acc'. filter_entries sl st ls (Some cat) ens k acc = Inr acc'
           \<and> menu_list acc' = map (value_item sl st) (first_seen st ls cat ens seen)
           \<and> filtered_category_have_unknown acc'
               = (filtered_category_have_unknown acc
                  \<or> list_ex (\<lambda>en. entry_passes st ls en \<and> e_by en cat = 0) ens)"
  using ens acc
proof (induction ens arbitrary: acc seen k)
  case Nil
  then show ?case by (simp add: seen_inv_def)
next
  case (Cons en ens)
  have wf: "split_wellformed (e_split en)" and en: "e_by en cat = 0 \<or> e_by en cat \<in> set ps"
    and rest: "\<forall>en\<in>set ens. split_wellformed (e_split en)
                 \<and> (e_by en cat = 0 \<or> e_by en cat \<in> set ps)"
    using Cons.prems(1) by simp_all
  obtain B where B: "entry_passes_levels en ls = Inr B"
    using entry_passes_levels_list_all [OF wf] by blast
  show ?case
  proof (cases "entry_passes st ls en")
    case False
    then have "filter_entries sl st ls (Some cat) (en # ens) k acc
                 = filter_entries sl st ls (Some cat) ens (k + 1) acc"
      using B by (cases B) (simp_all add: entry_passes_def)
    then show ?thesis using Cons.IH [OF rest Cons.prems(2), of "k + 1"] False by simp
  next
    case True
    let ?seen' = "if e_by en cat \<noteq> 0 \<and> e_by en cat \<notin> set seen then seen @ [e_by en cat] else seen"
    obtain acc1 where a1: "emit_entry sl st (Some cat) en k acc = Inr acc1"
        "seen_inv sl st ps acc1 ?seen'"
        "filtered_category_have_unknown acc1
           = (filtered_category_have_unknown acc \<or> e_by en cat = 0)"
      using emit_entry_seen [OF valid inj nz small en Cons.prems(2), of k]
      by (elim exE conjE) (rule that)
    have "filter_entries sl st ls (Some cat) (en # ens) k acc
            = filter_entries sl st ls (Some cat) ens (k + 1) acc1"
      using True a1(1) by (simp add: entry_passes_def)
    then show ?thesis
      using Cons.IH [OF rest a1(2), of "k + 1"] True a1(3) by auto
  qed
qed


lemma qsort_insert_map:
  "qsort_insert cmp (f x) (map f ys) = map f (qsort_insert (\<lambda>a b. cmp (f a) (f b)) x ys)"
  by (induction ys) simp_all

lemma qsort_map: "qsort cmp (map f xs) = map f (qsort (\<lambda>a b. cmp (f a) (f b)) xs)"
  unfolding qsort_def by (induction xs) (simp_all add: qsort_insert_map)

lemma strict_pos:
  assumes "sorted_wrt lt ps" and asym: "\<And>a b. lt a b \<Longrightarrow> \<not> lt b a"
    and "i < length ps" "j < length ps" "lt (ps ! i) (ps ! j)"
  shows "i < j"
proof (rule ccontr)
  assume "\<not> i < j"
  then consider "i = j" | "j < i" by linarith
  then show False
  proof cases
    case 1
    then show False using assms(5) asym by blast
  next
    case 2
    then have "lt (ps ! j) (ps ! i)" using assms(1,3) by (simp add: sorted_wrt_nth_less)
    then show False using assms(5) asym by blast
  qed
qed

lemma strict_trans:
  assumes s: "sorted_wrt lt ps" and asym: "\<And>a b. lt a b \<Longrightarrow> \<not> lt b a"
    and "a \<in> set ps" "b \<in> set ps" "c \<in> set ps" "lt a b" "lt b c"
  shows "lt a c"
proof -
  obtain i j k where i: "i < length ps" "ps ! i = a" and j: "j < length ps" "ps ! j = b"
    and k: "k < length ps" "ps ! k = c"
    using assms(3-5) by (metis in_set_conv_nth)
  have "i < j" using strict_pos [OF s asym i(1) j(1)] i j assms(6) by simp
  moreover have "j < k" using strict_pos [OF s asym j(1) k(1)] j k assms(7) by simp
  ultimately have "i < k" by simp
  then show ?thesis using s i k by (metis sorted_wrt_nth_less)
qed

lemma strict_total:
  assumes s: "sorted_wrt lt ps" and "a \<in> set ps" "b \<in> set ps" "a \<noteq> b"
  shows "lt a b \<or> lt b a"
proof -
  obtain i j where i: "i < length ps" "ps ! i = a" and j: "j < length ps" "ps ! j = b"
    using assms(2,3) by (metis in_set_conv_nth)
  then have "i < j \<or> j < i" using assms(4) by (metis nat_neq_iff)
  then show ?thesis using s i j by (metis sorted_wrt_nth_less)
qed

lemma sorted_wrt_qsort_insert:
  assumes s: "sorted_wrt (\<lambda>a b. cmp a b < 0) ps"
    and neg: "\<And>a b. cmp b a = - cmp a b"
    and "sorted_wrt (\<lambda>a b. cmp a b < 0) ys" "x \<notin> set ys" "x \<in> set ps" "set ys \<subseteq> set ps"
  shows "sorted_wrt (\<lambda>a b. cmp a b < 0) (qsort_insert cmp x ys)"
  using assms(3-6)
proof (induction ys)
  case Nil
  show ?case by simp
next
  case (Cons y ys)
  have asym: "cmp a b < 0 \<Longrightarrow> \<not> cmp b a < 0" for a b using neg [of a b] by linarith
  have xy: "x \<noteq> y" "y \<in> set ps" "x \<in> set ps" using Cons.prems by auto
  show ?case
  proof (cases "cmp x y \<le> 0")
    case True
    have "cmp x y < 0 \<or> cmp y x < 0"
      using strict_total [OF s xy(3) xy(2) xy(1)] .
    then have lt: "cmp x y < 0" using True neg [of x y] by auto
    have "cmp x z < 0" if "z \<in> set ys" for z
    proof -
      have "cmp y z < 0" using Cons.prems(1) that by simp
      moreover have "z \<in> set ps" using Cons.prems(4) that by auto
      ultimately show ?thesis
        using strict_trans [OF s, of x y z] asym xy lt by blast
    qed
    then show ?thesis using True lt Cons.prems(1) by auto
  next
    case False
    then have lt: "cmp y x < 0" using neg [of x y] by simp
    have "sorted_wrt (\<lambda>a b. cmp a b < 0) (qsort_insert cmp x ys)"
      using Cons.IH Cons.prems by simp
    then show ?thesis using False lt Cons.prems(1) by (simp add: set_qsort_insert)
  qed
qed

lemma sorted_wrt_qsort:
  assumes s: "sorted_wrt (\<lambda>a b. cmp a b < 0) ps"
    and neg: "\<And>a b. cmp b a = - cmp a b"
    and "distinct xs" "set xs \<subseteq> set ps"
  shows "sorted_wrt (\<lambda>a b. cmp a b < 0) (qsort cmp xs)"
  using assms(3,4)
proof (induction xs)
  case Nil
  show ?case by (simp add: qsort_def)
next
  case (Cons x xs)
  have "sorted_wrt (\<lambda>a b. cmp a b < 0) (qsort_insert cmp x (qsort cmp xs))"
    using Cons by (intro sorted_wrt_qsort_insert [OF s neg]) (simp_all add: set_qsort)
  then show ?case by (simp add: qsort_def)
qed

lemma sorted_wrt_unique:
  assumes asym: "\<And>a b. lt a b \<Longrightarrow> \<not> lt b a"
    and "sorted_wrt lt xs" "sorted_wrt lt ys" "set xs = set ys"
  shows "xs = ys"
  using assms(2-4)
proof (induction xs arbitrary: ys)
  case Nil
  then show ?case by simp
next
  case (Cons x xs)
  then obtain y ys' where ys: "ys = y # ys'" by (cases ys) auto
  have irr: "\<not> lt a a" for a using asym by blast
  have xy: "x = y"
  proof (rule ccontr)
    assume ne: "x \<noteq> y"
    have "x \<in> set ys'" using Cons.prems(3) ys ne by auto
    then have "lt y x" using Cons.prems(2) ys by simp
    moreover have "y \<in> set xs" using Cons.prems(3) ys ne by auto
    then have "lt x y" using Cons.prems(1) by simp
    ultimately show False using asym by blast
  qed
  have "x \<notin> set xs" using Cons.prems(1) irr by auto
  moreover have "y \<notin> set ys'" using Cons.prems(2) ys irr by auto
  ultimately have "set xs = set ys'" using Cons.prems(3) ys xy by auto
  then have "xs = ys'" using Cons.IH [of ys'] Cons.prems ys by simp
  then show ?case using xy ys by simp
qed

lemma qsort_of_presorted:
  assumes s: "sorted_wrt (\<lambda>a b. cmp a b < 0) ps"
    and neg: "\<And>a b. cmp b a = - cmp a b"
    and "distinct xs" "set xs \<subseteq> set ps"
  shows "qsort cmp xs = filter (\<lambda>p. p \<in> set xs) ps"
proof (rule sorted_wrt_unique [where lt = "\<lambda>a b. cmp a b < 0"])
  show "cmp a b < 0 \<Longrightarrow> \<not> cmp b a < 0" for a b using neg [of a b] by linarith
  show "sorted_wrt (\<lambda>a b. cmp a b < 0) (qsort cmp xs)"
    using sorted_wrt_qsort [OF s neg assms(3,4)] .
  show "sorted_wrt (\<lambda>a b. cmp a b < 0) (filter (\<lambda>p. p \<in> set xs) ps)"
    using s by (rule sorted_wrt_filter)
  show "set (qsort cmp xs) = set (filter (\<lambda>p. p \<in> set xs) ps)"
    using assms(4) by (auto simp: set_qsort)
qed

lemma menulist_value_item:
  "explore_qsort_func_menulist (value_item sl st a) (value_item sl st b)
     = explore_qsort_func_strings st a b"
  by (simp add: explore_qsort_func_menulist_def value_item_def explore_qsort_func_strings_def)

lemma strings_neg: "explore_qsort_func_strings st b a = - explore_qsort_func_strings st a b"
  unfolding explore_qsort_func_strings_def by (rule explore_qsort_func_neg)

lemma index_inv_keys:
  assumes "index_inv st cat"
  shows "inj_on (\<lambda>p. idx (deref st p)) (set (by_cat st cat))"
    and "\<forall>p\<in>set (by_cat st cat). idx (deref st p) + 1 \<noteq> 0"
    and "length (by_cat st cat) \<le> 2 ^ 30"
proof -
  let ?ps = "by_cat st cat"
  show small: "length ?ps \<le> 2 ^ 30"
  proof -
    have "int (length ?ps) \<le> int (2 ^ 30)" using assms by (simp add: index_inv_def)
    then show ?thesis by (simp only: of_nat_le_iff)
  qed
  have idx: "idx (deref st (?ps ! i)) = of_nat i" if "i < length ?ps" for i
    using assms that by (simp add: index_inv_def list_all_iff)
  have lt32: "i < 2 ^ 32" if "i < length ?ps" for i
  proof -
    have "(2::nat) ^ 30 < 2 ^ 32" by (intro power_strict_increasing) simp_all
    then show ?thesis using that small by linarith
  qed
  show "inj_on (\<lambda>p. idx (deref st p)) (set ?ps)"
  proof (rule inj_onI)
    fix p q assume "p \<in> set ?ps" "q \<in> set ?ps" and eq: "idx (deref st p) = idx (deref st q)"
    then obtain i j where i: "i < length ?ps" "?ps ! i = p" and j: "j < length ?ps" "?ps ! j = q"
      by (metis in_set_conv_nth)
    have "(of_nat i :: uint32) = of_nat j" using idx [OF i(1)] idx [OF j(1)] i j eq by simp
    then have "unat (of_nat i :: uint32) = unat (of_nat j :: uint32)" by simp
    then have "i = j"
      using unat_of_nat_small [OF lt32 [OF i(1)]] unat_of_nat_small [OF lt32 [OF j(1)]] by simp
    then show "p = q" using i j by simp
  qed
  show "\<forall>p\<in>set ?ps. idx (deref st p) + 1 \<noteq> 0"
  proof
    fix p assume "p \<in> set ?ps"
    then obtain i where i: "i < length ?ps" "?ps ! i = p" by (metis in_set_conv_nth)
    have u: "unat (idx (deref st p)) = i"
      using idx [OF i(1)] i unat_of_nat_small [OF lt32 [OF i(1)]] by simp
    then have "unat (idx (deref st p)) < 2 ^ 30" using i small by simp
    then have "unat (idx (deref st p) + 1) = unat (idx (deref st p)) + 1" by (rule unat_succ)
    then show "idx (deref st p) + 1 \<noteq> 0" by (metis Suc_eq_plus1 nat.simps(3) unat_0)
  qed
qed

lemma seen_inv_init:
  "seen_inv sl st ps
     \<lparr>menu_list = [], map_filtered_category = ex_hashmap32_zero,
      filtered_category_have_unknown = False\<rparr> []"
proof -
  have "unat (len (ex_hashmap32_zero :: nat ex_hashmap32)) = 0"
    by (simp add: ex_hashmap32_zero_def)
  then show ?thesis by (simp add: seen_inv_def hm_inv_zero hm_lookup_zero)
qed

lemma sorted_wrt_neq_distinct: "sorted_wrt (\<lambda>a b. a \<noteq> b) xs \<Longrightarrow> distinct xs"
  by (induction xs) auto

lemma distinct_value_items:
  assumes "index_inv st cat"
  shows "distinct (map (value_item sl st) (by_cat st cat))"
proof -
  have d: "distinct (by_cat st cat)"
  proof -
    have "sorted_wrt (\<lambda>a b. explore_qsort_func_strings st a b < 0) (by_cat st cat)"
      using assms by (simp add: index_inv_def)
    moreover have "a \<noteq> b" if "explore_qsort_func_strings st a b < 0" for a b
      using that strings_neg [of st a a] by auto
    ultimately have "sorted_wrt (\<lambda>a b. a \<noteq> b) (by_cat st cat)"
      by (rule sorted_wrt_mono_rel [rotated]) blast
    then show ?thesis by (rule sorted_wrt_neq_distinct)
  qed
  have "inj_on (value_item sl st) (set (by_cat st cat))"
  proof (rule inj_onI)
    fix p q assume p: "p \<in> set (by_cat st cat)" and q: "q \<in> set (by_cat st cat)"
      and "value_item sl st p = value_item sl st q"
    then have "idx (deref st p) = idx (deref st q)" by (simp add: value_item_def)
    then show "p = q" using index_inv_keys(1) [OF assms] p q by (auto dest: inj_onD)
  qed
  then show ?thesis using d by (simp add: distinct_map)
qed


lemma distinct_values_of_index:
  assumes "index_inv st cat"
  shows "explore_filtered_list settings_last st ls (Some cat) []
           = Inr (map (value_item settings_last st)
                      (filter (\<lambda>p. list_ex (\<lambda>en. entry_passes st ls en \<and> e_by en cat = p)
                                            (entries st))
                              (by_cat st cat))
                  @ (if list_ex (\<lambda>en. entry_passes st ls en \<and> e_by en cat = 0) (entries st)
                     then [unknown_item settings_last] else []))
       \<and> distinct (map (value_item settings_last st) (by_cat st cat))"
proof -
  let ?ps = "by_cat st cat"
  let ?sl = settings_last
  let ?seen = "first_seen st ls cat (entries st) []"
  have valid: "list_all (valid_ptr st) ?ps" using assms by (simp add: index_inv_def)
  have sorted: "sorted_wrt (\<lambda>a b. explore_qsort_func_strings st a b < 0) ?ps"
    using assms by (simp add: index_inv_def)
  have ens: "\<forall>en\<in>set (entries st). split_wellformed (e_split en)
                 \<and> (e_by en cat = 0 \<or> e_by en cat \<in> set ?ps)"
    using assms by (simp add: index_inv_def list_all_iff)
  obtain acc where acc:
      "filter_entries ?sl st ls (Some cat) (entries st) 0
         \<lparr>menu_list = [], map_filtered_category = ex_hashmap32_zero,
          filtered_category_have_unknown = False\<rparr> = Inr acc"
      "menu_list acc = map (value_item ?sl st) ?seen"
      "filtered_category_have_unknown acc
         = list_ex (\<lambda>en. entry_passes st ls en \<and> e_by en cat = 0) (entries st)"
    using filter_entries_seen [OF valid index_inv_keys [OF assms] ens seen_inv_init,
            of ?sl ls 0]
    by (elim exE conjE) simp
  have set_seen: "set ?seen = {p. p \<noteq> 0 \<and> (\<exists>en\<in>set (entries st). entry_passes st ls en \<and> e_by en cat = p)}"
    by (simp add: set_first_seen)
  have sub: "set ?seen \<subseteq> set ?ps"
    unfolding set_seen using ens by auto
  have dist: "distinct ?seen" by (rule distinct_first_seen) simp
  have "qsort explore_qsort_func_menulist (menu_list acc)
          = map (value_item ?sl st) (qsort (explore_qsort_func_strings st) ?seen)"
    unfolding acc(2) qsort_map menulist_value_item ..
  also have "qsort (explore_qsort_func_strings st) ?seen = filter (\<lambda>p. p \<in> set ?seen) ?ps"
    using sorted strings_neg dist sub by (rule qsort_of_presorted)
  also have "\<dots> = filter (\<lambda>p. list_ex (\<lambda>en. entry_passes st ls en \<and> e_by en cat = p)
                                       (entries st)) ?ps"
  proof (rule filter_cong [OF refl])
    fix p assume "p \<in> set ?ps"
    then have "p \<noteq> 0" using valid by (auto simp: list_all_iff valid_ptr_def)
    then show "(p \<in> set ?seen)
                 = list_ex (\<lambda>en. entry_passes st ls en \<and> e_by en cat = p) (entries st)"
      unfolding set_seen by (auto simp: list_ex_iff)
  qed
  finally have q: "qsort explore_qsort_func_menulist (menu_list acc)
      = map (value_item ?sl st)
          (filter (\<lambda>p. list_ex (\<lambda>en. entry_passes st ls en \<and> e_by en cat = p) (entries st)) ?ps)" .
  have "explore_filtered_list ?sl st ls (Some cat) []
          = Inr (map (value_item ?sl st)
                      (filter (\<lambda>p. list_ex (\<lambda>en. entry_passes st ls en \<and> e_by en cat = p)
                                            (entries st)) ?ps)
                  @ (if list_ex (\<lambda>en. entry_passes st ls en \<and> e_by en cat = 0) (entries st)
                     then [unknown_item ?sl] else []))"
    unfolding explore_filtered_list_def acc(1) using q acc(3)
    by (simp add: unknown_item_def)
  then show ?thesis using distinct_value_items [OF assms] by simp
qed

text \<open>
  C6. For the state of a build from records whose fields are C strings, with any search
  string set afterwards, and a category: the list of the distinct values is made without
  a fault and holds one item for each value of the category that is the primary value of
  at least one passing entry, the items in the order of \<^verbatim>\<open>by[cat]\<close>; and after them the
  item "Unknown" exactly when a passing entry has a null primary value. The items of the
  values of the category are pairwise different, so no value has two items.
\<close>

theorem distinct_value_view:
  assumes "explore_build_list rs = Some (Inr st0)" and "records_ok rs"
    and "cat < EXPLORE_CAT_COUNT" and "st = st0\<lparr>find_string := f\<rparr>"
  shows "explore_filtered_list settings_last st ls (Some cat) []
           = Inr (map (value_item settings_last st)
                      (filter (\<lambda>p. list_ex (\<lambda>en. entry_passes st ls en \<and> e_by en cat = p)
                                            (entries st))
                              (by_cat st cat))
                  @ (if list_ex (\<lambda>en. entry_passes st ls en \<and> e_by en cat = 0) (entries st)
                     then [unknown_item settings_last] else []))
       \<and> distinct (map (value_item settings_last st) (by_cat st cat))"
proof -
  have "index_inv st0 cat" using assms(1-3) by (rule build_index_inv)
  then have "index_inv st cat" unfolding assms(4) by (simp only: index_inv_find_string)
  then show ?thesis by (rule distinct_values_of_index)
qed

theorem distinct_value_view_witness:
  "case explore_build_list
          [\<lparr>r_entry = \<lparr>label = Some ''Alpha'', crc32 = Some ''0A1B2C3D'', db_name = Some ''db''\<rparr>,
            r_fields = (\<lambda>cat. if cat = 0 then Some ''apple'' else None),
            r_systemname = None, r_original_title = None\<rparr>,
           \<lparr>r_entry = \<lparr>label = Some ''Beta'', crc32 = Some ''0A1B2C3E'', db_name = Some ''db''\<rparr>,
            r_fields = (\<lambda>cat. if cat = 0 then Some ''Banana'' else None),
            r_systemname = None, r_original_title = None\<rparr>,
           \<lparr>r_entry = \<lparr>label = Some ''Gamma'', crc32 = Some ''0A1B2C3F'', db_name = Some ''db''\<rparr>,
            r_fields = (\<lambda>cat. if cat = 0 then Some ''APPLE'' else None),
            r_systemname = None, r_original_title = None\<rparr>,
           \<lparr>r_entry = \<lparr>label = Some ''Delta'', crc32 = Some ''0A1B2C40'', db_name = Some ''db''\<rparr>,
            r_fields = (\<lambda>cat. None),
            r_systemname = None, r_original_title = None\<rparr>] of
     Some (Inr st) \<Rightarrow>
       explore_filtered_list 0 st [] (Some 0) []
         = Inr [\<lparr>path = ''Banana'', item_type = 13\<rparr>, \<lparr>path = ''apple'', item_type = 14\<rparr>,
                \<lparr>path = ''Unknown'', item_type = 0\<rparr>]
       \<and> explore_filtered_list 0 (st\<lparr>find_string := ''MM''\<rparr>) [] (Some 0) []
           = Inr [\<lparr>path = ''apple'', item_type = 14\<rparr>]
   | _ \<Rightarrow> False"
proof -
  let ?rs = "[\<lparr>r_entry = \<lparr>label = Some ''Alpha'', crc32 = Some ''0A1B2C3D'', db_name = Some ''db''\<rparr>,
            r_fields = (\<lambda>cat. if cat = 0 then Some ''apple'' else None),
            r_systemname = None, r_original_title = None\<rparr>,
           \<lparr>r_entry = \<lparr>label = Some ''Beta'', crc32 = Some ''0A1B2C3E'', db_name = Some ''db''\<rparr>,
            r_fields = (\<lambda>cat. if cat = 0 then Some ''Banana'' else None),
            r_systemname = None, r_original_title = None\<rparr>,
           \<lparr>r_entry = \<lparr>label = Some ''Gamma'', crc32 = Some ''0A1B2C3F'', db_name = Some ''db''\<rparr>,
            r_fields = (\<lambda>cat. if cat = 0 then Some ''APPLE'' else None),
            r_systemname = None, r_original_title = None\<rparr>,
           \<lparr>r_entry = \<lparr>label = Some ''Delta'', crc32 = Some ''0A1B2C40'', db_name = Some ''db''\<rparr>,
            r_fields = (\<lambda>cat. None),
            r_systemname = None, r_original_title = None\<rparr>]"
  let ?view = "\<lambda>st. map (value_item 0 st)
                      (filter (\<lambda>p. list_ex (\<lambda>en. entry_passes st [] en \<and> e_by en 0 = p)
                                            (entries st))
                              (by_cat st 0))
                  @ (if list_ex (\<lambda>en. entry_passes st [] en \<and> e_by en 0 = 0) (entries st)
                     then [unknown_item 0] else [])"
  have ok: "records_ok ?rs" by code_simp
  have ev: "case explore_build_list ?rs of
              Some (Inr st) \<Rightarrow>
                ?view (st\<lparr>find_string := []\<rparr>)
                  = [\<lparr>path = ''Banana'', item_type = 13\<rparr>, \<lparr>path = ''apple'', item_type = 14\<rparr>,
                     \<lparr>path = ''Unknown'', item_type = 0\<rparr>]
                \<and> ?view (st\<lparr>find_string := ''MM''\<rparr>) = [\<lparr>path = ''apple'', item_type = 14\<rparr>]
                \<and> find_string st = []
            | _ \<Rightarrow> False"
    by code_simp
  show ?thesis
  proof (cases "explore_build_list ?rs")
    case None
    then show ?thesis using ev by simp
  next
    case (Some r)
    show ?thesis
    proof (cases r)
      case (Inl f)
      then show ?thesis using ev Some by simp
    next
      case (Inr st)
      then have b: "explore_build_list ?rs = Some (Inr st)" using Some by simp
      have c: "0 < EXPLORE_CAT_COUNT" by (simp add: EXPLORE_CAT_COUNT_def)
      have e0: "st\<lparr>find_string := []\<rparr> = st" using ev b by simp
      show ?thesis
        using distinct_value_view [OF b ok c refl, where f = "[]" and settings_last = 0 and ls = "[]"]
          distinct_value_view [OF b ok c refl, where f = "''MM''" and settings_last = 0 and ls = "[]"]
          ev b e0
        by simp
    qed
  qed
qed

end
